theory Spec2Isabelle
  imports Complex_Main "HOL-Library.Word" "HOL-Library.Signed_Division"
    "HOL-Library.Multiset" "HOL-Library.Product_Lexorder"
begin

unbundle bit_operations_syntax

section \<open>Conventions of the embedding\<close>

text \<open>
  The development embeds \<^verbatim>\<open>src/filter.cc\<close>, a block-decomposed two-dimensional median
  filter.

  \<^item> A C++ \<^verbatim>\<open>int\<close> has 32 bits. Signed overflow is undefined behaviour in C++; the
    model takes the two's-complement result that the target produces, written
    \<open>int32\<close>. It is applied to the arithmetic of the block geometry (\<^verbatim>\<open>Dim\<close>,
    \<^verbatim>\<open>BDim\<close>), of the cell indices (\<^verbatim>\<open>pack\<close>, \<^verbatim>\<open>coord\<close>) and of the driver. The
    counters of \<^verbatim>\<open>Window\<close> and \<^verbatim>\<open>WindowRank\<close> are bounded by the capacity of their
    arrays, and the positions of the traversal by a member of the object that each
    step has just compared them with (\<^verbatim>\<open>x + 1\<close> follows the assertion \<^verbatim>\<open>x < b1\<close>); they
    are computed in \<^typ>\<open>int\<close>. Integer division \<^verbatim>\<open>/\<close> truncates towards zero and is
    \<open>sdiv\<close>; a division by zero, or of the least \<^verbatim>\<open>int\<close> by \<open>-1\<close>, ends the run with
    the fault \<open>DivisionTrap\<close>.
  \<^item> A \<^verbatim>\<open>uint64_t\<close> is a \<^typ>\<open>64 word\<close>.
  \<^item> An array is a list of its capacity. Every access checks its index; an index
    out of range ends the run with the fault \<open>OutOfBounds\<close>. Memory that \<^verbatim>\<open>new\<close> leaves
    indeterminate is filled with zeros; every run of a block overwrites it before
    reading it, and the lemmas about a block hold for any content.
  \<^item> Whether a \<^verbatim>\<open>new[]\<close> succeeds is decided by the environment: the driver takes a
    parameter \<open>heap\<close>, and \<open>heap k n\<close> tells whether the \<open>k\<close>-th \<^verbatim>\<open>new[]\<close> of the call,
    for \<open>n\<close> elements, succeeds. A \<^verbatim>\<open>new[]\<close> that fails, or whose length is negative,
    throws \<^verbatim>\<open>std::bad_alloc\<close>, which is the error \<open>AllocationFailed\<close>.
  \<^item> An \<^verbatim>\<open>assert\<close> that fails ends the run with the fault \<open>AssertionFailed\<close>. A build
    with \<^verbatim>\<open>NDEBUG\<close> drops the checks; on every run that the model finishes without a
    fault the two builds agree.
  \<^item> The element type \<^verbatim>\<open>T\<close> (\<^verbatim>\<open>float\<close> or \<^verbatim>\<open>double\<close>) is \<^typ>\<open>'a option\<close>: \<open>None\<close> is
    NaN, and \<open>Some v\<close> a sample that is not NaN. The samples that are not NaN are
    linearly ordered by \<^verbatim>\<open><\<close> (the two zeros compare equal and are one value of
    \<^typ>\<open>'a\<close>). The arithmetic of \<^verbatim>\<open>T\<close> enters through one parameter, \<open>avg a b\<close>, the
    value of \<^verbatim>\<open>(a + b) / 2\<close> computed in \<^verbatim>\<open>T\<close>, which may be NaN.
  \<^item> \<open>InvalidWindow\<close> is the \<^verbatim>\<open>std::invalid_argument\<close> thrown by
    \<^verbatim>\<open>median_filter_impl_2d\<close>. \<open>InvalidDim\<close> completes the error taxonomy of the
    specification; no function of the source throws it.
  \<^item> The loop nest over the blocks runs on one worker, in source order; the
    \<^verbatim>\<open>omp\<close> pragmas are outside the embedding.
\<close>

definition int32 :: "int \<Rightarrow> int" where
  "int32 k = (k + 2147483648) mod 4294967296 - 2147483648"

abbreviation (input) INT_MAX :: int where
  "INT_MAX \<equiv> 2147483647"

abbreviation (input) INT_MIN :: int where
  "INT_MIN \<equiv> - 2147483648"

datatype fault = AssertionFailed | OutOfBounds | DivisionTrap

datatype error = InvalidWindow | InvalidDim | AllocationFailed

text \<open>
  A call of the filter returns with the output buffer written, or throws to its caller
  with the output buffer as it is at that moment, or ends in a fault (the process
  aborts, or the behaviour is undefined: no buffer is left to observe).
\<close>

datatype 'v result = Returned "'v list" | Raised error "'v list" | Aborted fault

text \<open>A \<^verbatim>\<open>for\<close> loop over a fixed range, stopping at the first fault.\<close>

fun iterate :: "'x list \<Rightarrow> ('x \<Rightarrow> 's \<Rightarrow> fault + 's) \<Rightarrow> 's \<Rightarrow> fault + 's" where
  "iterate [] f s = Inr s"
| "iterate (x # xs) f s = (case f x s of Inl e \<Rightarrow> Inl e | Inr s' \<Rightarrow> iterate xs f s')"

text \<open>The values of \<^verbatim>\<open>v\<close> in \<^verbatim>\<open>for (int v = lo; v < hi; ++v)\<close>.\<close>

definition for_range :: "int \<Rightarrow> int \<Rightarrow> int list" where
  "for_range lo hi = [lo..hi - 1]"

section \<open>Bit primitives\<close>

abbreviation (input) ONE64 :: "64 word" where
  "ONE64 \<equiv> 1"

definition choose_blocksize_1d :: "int \<Rightarrow> int" where
  "choose_blocksize_1d h = int32 (8 * int32 (h + 2))"

definition choose_blocksize_2d :: "int \<Rightarrow> int" where
  "choose_blocksize_2d h = int32 (4 * int32 (h + 2))"

text \<open>
  \<^verbatim>\<open>__builtin_popcountll\<close> and \<^verbatim>\<open>__builtin_ctzll\<close>. The result of the latter is
  undefined for \<open>0\<close>; the model returns \<open>64\<close> there.
\<close>

definition popcnt64 :: "64 word \<Rightarrow> int" where
  "popcnt64 x = int (length (filter (bit x) [0..<64]))"

definition ctzll :: "64 word \<Rightarrow> int" where
  "ctzll x = (case List.find (bit x) [0..<64] of Some i \<Rightarrow> int i | None \<Rightarrow> 64)"

text \<open>
  \<^verbatim>\<open>_pdep_u64(src, mask)\<close>, as the instruction is specified: the positions \<open>m\<close> of the
  mask are scanned upwards; at each set position the next low bit \<open>k\<close> of \<open>src\<close> is
  deposited.
\<close>

definition pdep_step :: "64 word \<Rightarrow> 64 word \<Rightarrow> nat \<Rightarrow> nat \<times> 64 word \<Rightarrow> nat \<times> 64 word" where
  "pdep_step src msk m kd =
     (if bit msk m
      then (fst kd + 1, if bit src (fst kd) then set_bit m (snd kd) else snd kd)
      else kd)"

definition pdep_u64 :: "64 word \<Rightarrow> 64 word \<Rightarrow> 64 word" where
  "pdep_u64 src msk = snd (fold (pdep_step src msk) [0..<64] (0, 0))"

text \<open>The loop \<^verbatim>\<open>for (int i = 0; i < n; ++i) x &= x - 1\<close>.\<close>

fun clear_lowest :: "nat \<Rightarrow> 64 word \<Rightarrow> 64 word" where
  "clear_lowest 0 x = x"
| "clear_lowest (Suc i) x = clear_lowest i (x AND (x - 1))"

text \<open>
  The two bodies of \<^verbatim>\<open>findnth64\<close>: with \<^verbatim>\<open>__AVX2__\<close> and without. \<^verbatim>\<open>Window::find\<close>
  calls the function under its assertion \<open>0 \<le> n < popcnt64 x\<close>, where the two agree
  (lemma \<open>findnth64_pdep_eq\<close>); the model of \<^verbatim>\<open>find\<close> uses the portable body.
\<close>

definition findnth64_pdep :: "64 word \<Rightarrow> int \<Rightarrow> int" where
  "findnth64_pdep x n = ctzll (pdep_u64 (push_bit (nat n) ONE64) x)"

definition findnth64 :: "64 word \<Rightarrow> int \<Rightarrow> int" where
  "findnth64 x n = ctzll (clear_lowest (nat n) x)"

section \<open>Grid dimensions: \<^verbatim>\<open>Dim\<close>\<close>

record Dim =
  size_d :: int
  h_d :: int
  step_d :: int
  count_d :: int

definition calc_step :: "int \<Rightarrow> int \<Rightarrow> int" where
  "calc_step b h = int32 (b - int32 (2 * h))"

definition calc_count :: "int \<Rightarrow> int \<Rightarrow> int \<Rightarrow> fault + int" where
  "calc_count b sz h =
     (if sz \<le> b then Inr 1
      else (let interior = int32 (sz - int32 (2 * h));
                step = calc_step b h;
                num = int32 (int32 (interior + step) - 1)
            in if step = 0 \<or> (num = INT_MIN \<and> step = -1) then Inl DivisionTrap
               else Inr (int32 (num sdiv step))))"

text \<open>The member initialisers of the constructor, in the order of the members.\<close>

definition Dim_init :: "int \<Rightarrow> int \<Rightarrow> int \<Rightarrow> fault + Dim" where
  "Dim_init b sz h =
     (case calc_count b sz h of
        Inl e \<Rightarrow> Inl e
      | Inr c \<Rightarrow> Inr \<lparr>size_d = sz, h_d = h, step_d = calc_step b h, count_d = c\<rparr>)"

text \<open>The four assertions of the constructor body, in order.\<close>

definition Dim_asserts :: "int \<Rightarrow> Dim \<Rightarrow> bool" where
  "Dim_asserts b d \<longleftrightarrow>
     int32 (int32 (2 * h_d d) + 1) < b \<and>
     count_d d \<ge> 1 \<and>
     int32 (int32 (2 * h_d d) + int32 (count_d d * step_d d)) \<ge> size_d d \<and>
     (int32 (int32 (2 * h_d d) + int32 (int32 (count_d d - 1) * step_d d)) < size_d d \<or>
      count_d d = 1)"

definition Dim_new :: "int \<Rightarrow> int \<Rightarrow> int \<Rightarrow> fault + Dim" where
  "Dim_new b sz h =
     (case Dim_init b sz h of
        Inl e \<Rightarrow> Inl e
      | Inr d \<Rightarrow> if Dim_asserts b d then Inr d else Inl AssertionFailed)"

section \<open>Slot \<open>i\<close> of the grid: \<^verbatim>\<open>BDim\<close>\<close>

text \<open>
  The members \<^verbatim>\<open>coords\<close> and \<^verbatim>\<open>radius\<close> are stored by the constructor and never read;
  the record leaves them out.
\<close>

record BDim =
  dim :: Dim
  start :: int
  size_b :: int
  b0 :: int
  b1 :: int

definition BDim_set :: "BDim \<Rightarrow> int \<Rightarrow> BDim" where
  "BDim_set bd i =
     (let is_first = (i = 0);
          is_last = (int32 (i + 1) = count_d (dim bd));
          start' = int32 (step_d (dim bd) * i);
          end' = (if is_last then size_d (dim bd)
                  else int32 (int32 (2 * h_d (dim bd)) + int32 (int32 (i + 1) * step_d (dim bd))));
          size' = int32 (end' - start')
      in bd\<lparr>start := start',
            size_b := size',
            b0 := (if is_first then 0 else h_d (dim bd)),
            b1 := (if is_last then size' else int32 (size' - h_d (dim bd)))\<rparr>)"

definition BDim_new :: "Dim \<Rightarrow> BDim" where
  "BDim_new d = BDim_set \<lparr>dim = d, start = 0, size_b = 0, b0 = 0, b1 = 0\<rparr> 0"

definition w0 :: "BDim \<Rightarrow> int \<Rightarrow> fault + int" where
  "w0 bd v =
     (if \<not> b0 bd \<le> v then Inl AssertionFailed
      else if \<not> v < b1 bd then Inl AssertionFailed
      else Inr (max 0 (int32 (v - h_d (dim bd)))))"

definition w1 :: "BDim \<Rightarrow> int \<Rightarrow> fault + int" where
  "w1 bd v =
     (if \<not> b0 bd \<le> v then Inl AssertionFailed
      else if \<not> v < b1 bd then Inl AssertionFailed
      else Inr (min (int32 (int32 (v + 1) + h_d (dim bd))) (size_b bd)))"

text \<open>
  The interior of tile \<open>i\<close> in image coordinates: \<open>[start + b0, start + b1)\<close> after
  \<^verbatim>\<open>set(i)\<close>.
\<close>

definition interior_lo :: "Dim \<Rightarrow> int \<Rightarrow> int" where
  "interior_lo d i = (let bd = BDim_set (BDim_new d) i in start bd + b0 bd)"

definition interior_hi :: "Dim \<Rightarrow> int \<Rightarrow> int" where
  "interior_hi d i = (let bd = BDim_set (BDim_new d) i in start bd + b1 bd)"

definition interior :: "Dim \<Rightarrow> int \<Rightarrow> int set" where
  "interior d i = {interior_lo d i ..< interior_hi d i}"

section \<open>The sliding window: \<^verbatim>\<open>Window\<close>\<close>

abbreviation (input) WORD_SHIFT :: nat where
  "WORD_SHIFT \<equiv> 6"

abbreviation (input) WORD_SIZE :: int where
  "WORD_SIZE \<equiv> 64"

abbreviation (input) WORD_MASK :: int where
  "WORD_MASK \<equiv> 63"

record Window =
  words_w :: int
  buf_w :: "64 word list"
  half0_w :: int
  half1_w :: int
  p_w :: int

definition get_words :: "int \<Rightarrow> fault + int" where
  "get_words bb =
     (if \<not> bb \<ge> 1 then Inl AssertionFailed
      else Inr ((bb + WORD_SIZE - 1) sdiv WORD_SIZE))"

definition Window_new :: "int \<Rightarrow> fault + Window" where
  "Window_new bb =
     (case get_words bb of
        Inl e \<Rightarrow> Inl e
      | Inr n \<Rightarrow> Inr \<lparr>words_w = n, buf_w = replicate (nat n) 0,
                      half0_w = 0, half1_w = 0, p_w = 0\<rparr>)"

definition Window_clear :: "Window \<Rightarrow> Window" where
  "Window_clear w =
     w\<lparr>buf_w := replicate (nat (words_w w)) 0,
       half0_w := 0,
       half1_w := 0,
       p_w := words_w w sdiv 2\<rparr>"

definition Window_update :: "Window \<Rightarrow> int \<Rightarrow> int \<Rightarrow> fault + Window" where
  "Window_update w op s =
     (if \<not> (op = -1 \<or> op = 1) then Inl AssertionFailed
      else
        (let i = drop_bit WORD_SHIFT s;
             j = s AND WORD_MASK
         in if \<not> (0 \<le> i \<and> i < int (length (buf_w w))) then Inl OutOfBounds
            else
              (let m = push_bit (nat j) ONE64;
                   cur = buf_w w ! nat i
               in if op = 1 \<and> cur AND m \<noteq> 0 then Inl AssertionFailed
                  else if op \<noteq> 1 \<and> cur AND m = 0 then Inl AssertionFailed
                  else Inr (if i \<ge> p_w w
                            then w\<lparr>buf_w := (buf_w w)[nat i := cur XOR m],
                                   half1_w := half1_w w + op\<rparr>
                            else w\<lparr>buf_w := (buf_w w)[nat i := cur XOR m],
                                   half0_w := half0_w w + op\<rparr>))))"

definition Window_size :: "Window \<Rightarrow> int" where
  "Window_size w = half0_w w + half1_w w"

text \<open>The first loop of \<^verbatim>\<open>find\<close>: \<^verbatim>\<open>while (half[0] > goal)\<close>.\<close>

function find_down :: "Window \<Rightarrow> int \<Rightarrow> fault + Window" where
  "find_down w goal =
     (if half0_w w > goal
      then (let p' = p_w w - 1
            in if \<not> (0 \<le> p' \<and> p' < int (length (buf_w w))) then Inl OutOfBounds
               else find_down
                      (w\<lparr>p_w := p',
                         half0_w := half0_w w - popcnt64 (buf_w w ! nat p'),
                         half1_w := half1_w w + popcnt64 (buf_w w ! nat p')\<rparr>) goal)
      else Inr w)"
  by pat_completeness auto
termination
  by (relation "measure (\<lambda>(w, goal). nat (p_w w))") auto

declare find_down.simps [simp del]

text \<open>The second loop: \<^verbatim>\<open>while (half[0] + popcnt64(buf[p]) <= goal)\<close>.\<close>

function find_up :: "Window \<Rightarrow> int \<Rightarrow> fault + Window" where
  "find_up w goal =
     (if \<not> (0 \<le> p_w w \<and> p_w w < int (length (buf_w w))) then Inl OutOfBounds
      else if half0_w w + popcnt64 (buf_w w ! nat (p_w w)) \<le> goal
      then find_up
             (w\<lparr>half0_w := half0_w w + popcnt64 (buf_w w ! nat (p_w w)),
                half1_w := half1_w w - popcnt64 (buf_w w ! nat (p_w w)),
                p_w := p_w w + 1\<rparr>) goal
      else Inr w)"
  by pat_completeness auto
termination
  by (relation "measure (\<lambda>(w, goal). nat (int (length (buf_w w)) - p_w w))") auto

declare find_up.simps [simp del]

definition Window_find :: "Window \<Rightarrow> int \<Rightarrow> fault + Window \<times> int" where
  "Window_find w goal =
     (case find_down w goal of
        Inl e \<Rightarrow> Inl e
      | Inr wa \<Rightarrow>
          (case find_up wa goal of
             Inl e \<Rightarrow> Inl e
           | Inr wb \<Rightarrow>
               (let n = goal - half0_w wb
                in if \<not> (0 \<le> n \<and> n < popcnt64 (buf_w wb ! nat (p_w wb)))
                   then Inl AssertionFailed
                   else (let j = findnth64 (buf_w wb ! nat (p_w wb)) n
                         in Inr (wb, push_bit WORD_SHIFT (p_w wb) OR j)))))"

section \<open>Ranks of a block: \<^verbatim>\<open>WindowRank\<close>\<close>

text \<open>
  \<^verbatim>\<open>sorted\<close> holds pairs of a sample and its slot. \<^verbatim>\<open>init_feed\<close> stores a sample only
  when it is not NaN, so the first component is the sample proper, of type \<^typ>\<open>'a\<close>. The
  constructor value-initialises the pairs (sample \<open>0\<close>, slot \<open>0\<close>).
\<close>

abbreviation (input) NAN_MARKER :: int where
  "NAN_MARKER \<equiv> -1"

record 'a WindowRank =
  sorted_wr :: "('a \<times> int) list"
  rank_wr :: "int list"
  window_wr :: Window
  bb_wr :: int
  size_wr :: int

definition WindowRank_new :: "int \<Rightarrow> fault + ('a::{linorder,zero}) WindowRank" where
  "WindowRank_new bb =
     (case Window_new bb of
        Inl e \<Rightarrow> Inl e
      | Inr w \<Rightarrow> Inr \<lparr>sorted_wr = replicate (nat bb) (0, 0),
                      rank_wr = replicate (nat bb) 0,
                      window_wr = w,
                      bb_wr = bb,
                      size_wr = 0\<rparr>)"

definition init_start :: "'a WindowRank \<Rightarrow> 'a WindowRank" where
  "init_start wr = wr\<lparr>size_wr := 0\<rparr>"

definition init_feed :: "'a WindowRank \<Rightarrow> 'a option \<Rightarrow> int \<Rightarrow> fault + 'a WindowRank" where
  "init_feed wr val slot =
     (case val of
        None \<Rightarrow>
          if \<not> (0 \<le> slot \<and> slot < int (length (rank_wr wr))) then Inl OutOfBounds
          else Inr (wr\<lparr>rank_wr := (rank_wr wr)[nat slot := NAN_MARKER]\<rparr>)
      | Some v \<Rightarrow>
          if \<not> (0 \<le> size_wr wr \<and> size_wr wr < int (length (sorted_wr wr)))
          then Inl OutOfBounds
          else Inr (wr\<lparr>sorted_wr := (sorted_wr wr)[nat (size_wr wr) := (v, slot)],
                       size_wr := size_wr wr + 1\<rparr>))"

text \<open>The body of the loop of \<^verbatim>\<open>init_finish\<close>: \<^verbatim>\<open>rank[sorted[i].second] = i\<close>.\<close>

definition set_rank :: "int \<Rightarrow> 'a WindowRank \<Rightarrow> fault + 'a WindowRank" where
  "set_rank i wr =
     (if \<not> (0 \<le> i \<and> i < int (length (sorted_wr wr))) then Inl OutOfBounds
      else (let slot = snd (sorted_wr wr ! nat i)
            in if \<not> (0 \<le> slot \<and> slot < int (length (rank_wr wr))) then Inl OutOfBounds
               else Inr (wr\<lparr>rank_wr := (rank_wr wr)[nat slot := i]\<rparr>)))"

text \<open>
  \<^verbatim>\<open>std::sort(sorted, sorted + size)\<close> orders the first \<open>size\<close> pairs by \<^verbatim>\<open><\<close> on
  pairs, which is lexicographic; the result is the one ascending arrangement of them.
\<close>

definition init_finish :: "('a::linorder) WindowRank \<Rightarrow> fault + 'a WindowRank" where
  "init_finish wr =
     (if \<not> (0 \<le> size_wr wr \<and> size_wr wr \<le> int (length (sorted_wr wr)))
      then Inl OutOfBounds
      else iterate (for_range 0 (size_wr wr)) set_rank
             (wr\<lparr>sorted_wr := sort (take (nat (size_wr wr)) (sorted_wr wr))
                                 @ drop (nat (size_wr wr)) (sorted_wr wr)\<rparr>))"

definition WindowRank_clear :: "'a WindowRank \<Rightarrow> 'a WindowRank" where
  "WindowRank_clear wr = wr\<lparr>window_wr := Window_clear (window_wr wr)\<rparr>"

definition WindowRank_update :: "'a WindowRank \<Rightarrow> int \<Rightarrow> int \<Rightarrow> fault + 'a WindowRank" where
  "WindowRank_update wr op slot =
     (if \<not> (0 \<le> slot \<and> slot < int (length (rank_wr wr))) then Inl OutOfBounds
      else (let s = rank_wr wr ! nat slot
            in if s \<noteq> NAN_MARKER
               then (case Window_update (window_wr wr) op s of
                       Inl e \<Rightarrow> Inl e
                     | Inr w \<Rightarrow> Inr (wr\<lparr>window_wr := w\<rparr>))
               else Inr wr))"

text \<open>
  \<^verbatim>\<open>get_med\<close> returns the median and leaves the window with the pivot \<^verbatim>\<open>find\<close> has
  moved. \<open>avg a b\<close> is \<^verbatim>\<open>value += b; value /= 2\<close> from \<^verbatim>\<open>value\<close> \<open>= a\<close>.
\<close>

definition get_med ::
  "('a \<Rightarrow> 'a \<Rightarrow> 'a option) \<Rightarrow> 'a WindowRank \<Rightarrow> fault + 'a WindowRank \<times> 'a option" where
  "get_med avg wr =
     (let total = Window_size (window_wr wr)
      in if total = 0 then Inr (wr, None)
         else
           (let goal1 = (total - 1) sdiv 2;
                goal2 = (total - 0) sdiv 2
            in case Window_find (window_wr wr) goal1 of
                 Inl e \<Rightarrow> Inl e
               | Inr (wa, med1) \<Rightarrow>
                   if \<not> (0 \<le> med1 \<and> med1 < int (length (sorted_wr wr))) then Inl OutOfBounds
                   else
                     (let val = fst (sorted_wr wr ! nat med1)
                      in if goal2 \<noteq> goal1
                         then (case Window_find wa goal2 of
                                 Inl e \<Rightarrow> Inl e
                               | Inr (wb, med2) \<Rightarrow>
                                   if \<not> med2 > med1 then Inl AssertionFailed
                                   else if \<not> (0 \<le> med2 \<and> med2 < int (length (sorted_wr wr)))
                                   then Inl OutOfBounds
                                   else Inr (wr\<lparr>window_wr := wb\<rparr>,
                                             avg val (fst (sorted_wr wr ! nat med2))))
                         else Inr (wr\<lparr>window_wr := wa\<rparr>, Some val))))"

section \<open>One block: \<^verbatim>\<open>MedCalc2D\<close>\<close>

text \<open>
  The arguments \<^verbatim>\<open>times\<close>, \<^verbatim>\<open>ranges\<close>, \<^verbatim>\<open>time_d\<close> and \<^verbatim>\<open>range_d\<close> are handed to the
  \<^verbatim>\<open>BDim\<close> members and never read; the model leaves them out.
\<close>

record 'a MedCalc2D =
  wr_mc :: "'a WindowRank"
  bx_mc :: BDim
  by_mc :: BDim
  in_mc :: "'a option list"
  out_mc :: "'a option list"

text \<open>
  The constructor builds the \<^verbatim>\<open>WindowRank\<close> of capacity \<^verbatim>\<open>b_ * b_\<close>: \<^verbatim>\<open>new\<close> of the
  \<^verbatim>\<open>sorted\<close> and of the \<^verbatim>\<open>rank\<close> array, then the \<^verbatim>\<open>Window\<close>, whose \<^verbatim>\<open>get_words\<close>
  asserts \<^verbatim>\<open>bb >= 1\<close> and computes the length of \<^verbatim>\<open>buf\<close> before its \<^verbatim>\<open>new\<close>. The result is
  the object, or the fault of the assertion, or the error of a \<^verbatim>\<open>new\<close>. The object is
  built by \<open>WindowRank_new\<close> once the three allocations have succeeded; the length of
  \<^verbatim>\<open>buf\<close> is then not negative, so \<^verbatim>\<open>bb + 63\<close> has not left the range of \<^verbatim>\<open>int\<close>.
\<close>

definition new_ok :: "(nat \<Rightarrow> int \<Rightarrow> bool) \<Rightarrow> nat \<Rightarrow> int \<Rightarrow> bool" where
  "new_ok heap k n \<longleftrightarrow> 0 \<le> n \<and> heap k n"

definition MedCalc2D_new ::
  "(nat \<Rightarrow> int \<Rightarrow> bool) \<Rightarrow> int \<Rightarrow> Dim \<Rightarrow> Dim \<Rightarrow> 'a option list \<Rightarrow> 'a option list
     \<Rightarrow> error + fault + ('a::{linorder,zero}) MedCalc2D" where
  "MedCalc2D_new heap b dimx dimy inp outp =
     (let bb = int32 (b * b)
      in if \<not> new_ok heap 0 bb then Inl AllocationFailed
         else if \<not> new_ok heap 1 bb then Inl AllocationFailed
         else if \<not> bb \<ge> 1 then Inr (Inl AssertionFailed)
         else if \<not> new_ok heap 2 (int32 (int32 (int32 (bb + 64) - 1) sdiv 64))
         then Inl AllocationFailed
         else (case WindowRank_new bb of
                 Inl e \<Rightarrow> Inr (Inl e)
               | Inr r \<Rightarrow>
                   Inr (Inr \<lparr>wr_mc = r, bx_mc = BDim_new dimx, by_mc = BDim_new dimy,
                             in_mc = inp, out_mc = outp\<rparr>)))"

definition pack :: "'a MedCalc2D \<Rightarrow> int \<Rightarrow> int \<Rightarrow> int" where
  "pack mc x y = int32 (int32 (y * size_b (bx_mc mc)) + x)"

definition coord :: "'a MedCalc2D \<Rightarrow> int \<Rightarrow> int \<Rightarrow> int" where
  "coord mc x y =
     int32 (int32 (int32 (y + start (by_mc mc)) * size_d (dim (bx_mc mc)))
            + int32 (x + start (bx_mc mc)))"

text \<open>The body of the inner loop of \<^verbatim>\<open>calc_rank\<close>.\<close>

definition feed_cell :: "int \<Rightarrow> int \<Rightarrow> 'a MedCalc2D \<Rightarrow> fault + 'a MedCalc2D" where
  "feed_cell y x mc =
     (let c = coord mc x y
      in if \<not> (0 \<le> c \<and> c < int (length (in_mc mc))) then Inl OutOfBounds
         else (case init_feed (wr_mc mc) (in_mc mc ! nat c) (pack mc x y) of
                 Inl e \<Rightarrow> Inl e
               | Inr r \<Rightarrow> Inr (mc\<lparr>wr_mc := r\<rparr>)))"

definition calc_rank :: "('a::linorder) MedCalc2D \<Rightarrow> fault + 'a MedCalc2D" where
  "calc_rank mc =
     (case iterate (for_range 0 (size_b (by_mc mc)))
             (\<lambda>y. iterate (for_range 0 (size_b (bx_mc mc))) (feed_cell y))
             (mc\<lparr>wr_mc := init_start (wr_mc mc)\<rparr>) of
        Inl e \<Rightarrow> Inl e
      | Inr mc' \<Rightarrow>
          (case init_finish (wr_mc mc') of
             Inl e \<Rightarrow> Inl e
           | Inr r \<Rightarrow> Inr (mc'\<lparr>wr_mc := r\<rparr>)))"

definition update_cell :: "int \<Rightarrow> int \<Rightarrow> int \<Rightarrow> 'a MedCalc2D \<Rightarrow> fault + 'a MedCalc2D" where
  "update_cell op y x mc =
     (case WindowRank_update (wr_mc mc) op (pack mc x y) of
        Inl e \<Rightarrow> Inl e
      | Inr r \<Rightarrow> Inr (mc\<lparr>wr_mc := r\<rparr>))"

definition update_block ::
  "'a MedCalc2D \<Rightarrow> int \<Rightarrow> int \<Rightarrow> int \<Rightarrow> int \<Rightarrow> int \<Rightarrow> fault + 'a MedCalc2D" where
  "update_block mc op x0 x1 y0 y1 =
     iterate (for_range y0 y1) (\<lambda>y. iterate (for_range x0 x1) (update_cell op y)) mc"

definition set_med ::
  "('a \<Rightarrow> 'a \<Rightarrow> 'a option) \<Rightarrow> 'a MedCalc2D \<Rightarrow> int \<Rightarrow> int \<Rightarrow> fault + 'a MedCalc2D" where
  "set_med avg mc x y =
     (case get_med avg (wr_mc mc) of
        Inl e \<Rightarrow> Inl e
      | Inr (r, v) \<Rightarrow>
          (let c = coord mc x y
           in if \<not> (0 \<le> c \<and> c < int (length (out_mc mc))) then Inl OutOfBounds
              else Inr (mc\<lparr>wr_mc := r, out_mc := (out_mc mc)[nat c := v]\<rparr>)))"

text \<open>
  A call \<^verbatim>\<open>update_block(op, X0, X1, Y0, Y1)\<close> whose bounds are calls of \<^verbatim>\<open>w0\<close> and
  \<^verbatim>\<open>w1\<close>: the bounds are evaluated first, and an assertion of any of them ends the run.
\<close>

definition update_block_at ::
  "'a MedCalc2D \<Rightarrow> int \<Rightarrow> fault + int \<Rightarrow> fault + int \<Rightarrow> fault + int \<Rightarrow> fault + int
     \<Rightarrow> fault + 'a MedCalc2D" where
  "update_block_at mc op X0 X1 Y0 Y1 =
     (case X0 of Inl e \<Rightarrow> Inl e | Inr x0 \<Rightarrow>
      case X1 of Inl e \<Rightarrow> Inl e | Inr x1 \<Rightarrow>
      case Y0 of Inl e \<Rightarrow> Inl e | Inr y0 \<Rightarrow>
      case Y1 of Inl e \<Rightarrow> Inl e | Inr y1 \<Rightarrow>
        update_block mc op x0 x1 y0 y1)"

text \<open>
  The body of the inner loop of the naive \<^verbatim>\<open>medians\<close> (compiled with \<^verbatim>\<open>NAIVE\<close>).
\<close>

definition naive_cell ::
  "('a \<Rightarrow> 'a \<Rightarrow> 'a option) \<Rightarrow> int \<Rightarrow> int \<Rightarrow> 'a MedCalc2D \<Rightarrow> fault + 'a MedCalc2D" where
  "naive_cell avg y x mc =
     (let mc1 = mc\<lparr>wr_mc := WindowRank_clear (wr_mc mc)\<rparr>
      in case update_block_at mc1 1
                (w0 (bx_mc mc1) x) (w1 (bx_mc mc1) x) (w0 (by_mc mc1) y) (w1 (by_mc mc1) y) of
           Inl e \<Rightarrow> Inl e
         | Inr mc2 \<Rightarrow> set_med avg mc2 x y)"

definition medians_naive ::
  "('a \<Rightarrow> 'a \<Rightarrow> 'a option) \<Rightarrow> 'a MedCalc2D \<Rightarrow> fault + 'a MedCalc2D" where
  "medians_naive avg mc =
     iterate (for_range (b0 (by_mc mc)) (b1 (by_mc mc)))
       (\<lambda>y. iterate (for_range (b0 (bx_mc mc)) (b1 (bx_mc mc))) (naive_cell avg y)) mc"

text \<open>
  One turn of the loop \<^verbatim>\<open>while (true)\<close> of the snake \<^verbatim>\<open>medians\<close>, from the position
  \<open>(x, y)\<close> and the direction \<open>down\<close>: \<open>None\<close> is the \<^verbatim>\<open>break\<close>, otherwise the new
  object, position and direction.
\<close>

definition snake_turn :: "BDim \<Rightarrow> int \<Rightarrow> bool \<Rightarrow> bool \<times> bool" where
  "snake_turn byd y down =
     (if down
      then (if y + 1 = b1 byd then (True, False) else (False, down))
      else (if y = b0 byd then (True, True) else (False, down)))"

definition snake_step ::
  "('a \<Rightarrow> 'a \<Rightarrow> 'a option) \<Rightarrow> 'a MedCalc2D \<times> int \<times> int \<times> bool
     \<Rightarrow> fault + ('a MedCalc2D \<times> int \<times> int \<times> bool) option" where
  "snake_step avg st =
     (case st of (mc, x, y, down0) \<Rightarrow>
        (let (right, down) = snake_turn (by_mc mc) y down0;
             bx = bx_mc mc;
             byd = by_mc mc
         in if right \<and> x + 1 = b1 bx then Inr None
            else if right then
              (case update_block_at mc (-1) (w0 bx x) (w0 bx (x + 1)) (w0 byd y) (w1 byd y) of
                 Inl e \<Rightarrow> Inl e
               | Inr mc1 \<Rightarrow>
                   (case update_block_at mc1 1
                           (w1 bx (x + 1 - 1)) (w1 bx (x + 1)) (w0 byd y) (w1 byd y) of
                      Inl e \<Rightarrow> Inl e
                    | Inr mc2 \<Rightarrow>
                        (case set_med avg mc2 (x + 1) y of
                           Inl e \<Rightarrow> Inl e
                         | Inr mc3 \<Rightarrow> Inr (Some (mc3, x + 1, y, down)))))
            else if down then
              (case update_block_at mc (-1) (w0 bx x) (w1 bx x) (w0 byd y) (w0 byd (y + 1)) of
                 Inl e \<Rightarrow> Inl e
               | Inr mc1 \<Rightarrow>
                   (case update_block_at mc1 1
                           (w0 bx x) (w1 bx x) (w1 byd (y + 1 - 1)) (w1 byd (y + 1)) of
                      Inl e \<Rightarrow> Inl e
                    | Inr mc2 \<Rightarrow>
                        (case set_med avg mc2 x (y + 1) of
                           Inl e \<Rightarrow> Inl e
                         | Inr mc3 \<Rightarrow> Inr (Some (mc3, x, y + 1, down)))))
            else
              (case update_block_at mc (-1) (w0 bx x) (w1 bx x) (w1 byd (y - 1)) (w1 byd y) of
                 Inl e \<Rightarrow> Inl e
               | Inr mc1 \<Rightarrow>
                   (case update_block_at mc1 1
                           (w0 bx x) (w1 bx x) (w0 byd (y - 1)) (w0 byd (y - 1 + 1)) of
                      Inl e \<Rightarrow> Inl e
                    | Inr mc2 \<Rightarrow>
                        (case set_med avg mc2 x (y - 1) of
                           Inl e \<Rightarrow> Inl e
                         | Inr mc3 \<Rightarrow> Inr (Some (mc3, x, y - 1, down)))))))"

text \<open>
  The loop ends: a turn that does not fault has passed the assertions of \<^verbatim>\<open>w0\<close> and
  \<^verbatim>\<open>w1\<close> at the new position, which bound it by the interior of the block.
\<close>

lemma iterate_preserves:
  assumes "iterate xs f s = Inr s'"
    and "\<And>x t t'. f x t = Inr t' \<Longrightarrow> g t' = g t"
  shows "g s' = g s"
  using assms(1)
proof (induction xs arbitrary: s)
  case Nil
  then show ?case by simp
next
  case (Cons x xs)
  then obtain t where t: "f x s = Inr t" "iterate xs f t = Inr s'"
    by (auto split: sum.splits)
  then show ?case using Cons.IH[of t] assms(2)[of x s t] by simp
qed

lemma update_cell_geometry:
  assumes "update_cell op y x mc = Inr mc'"
  shows "bx_mc mc' = bx_mc mc \<and> by_mc mc' = by_mc mc \<and> in_mc mc' = in_mc mc \<and>
         out_mc mc' = out_mc mc"
  using assms by (auto simp: update_cell_def split: sum.splits)

lemma update_block_geometry:
  assumes "update_block mc op x0 x1 y0 y1 = Inr mc'"
  shows "bx_mc mc' = bx_mc mc \<and> by_mc mc' = by_mc mc \<and> in_mc mc' = in_mc mc \<and>
         out_mc mc' = out_mc mc"
proof -
  let ?g = "\<lambda>m. (bx_mc m, by_mc m, in_mc m, out_mc m)"
  have inner: "?g t' = ?g t" if "iterate (for_range x0 x1) (update_cell op y) t = Inr t'"
    for y t t'
    using that by (rule iterate_preserves) (simp add: update_cell_geometry)
  have "?g mc' = ?g mc"
    using assms unfolding update_block_def by (rule iterate_preserves) (rule inner)
  then show ?thesis by simp
qed

lemma update_block_at_Inr:
  assumes "update_block_at mc op X0 X1 Y0 Y1 = Inr mc'"
  obtains x0 x1 y0 y1 where "X0 = Inr x0" "X1 = Inr x1" "Y0 = Inr y0" "Y1 = Inr y1"
    "update_block mc op x0 x1 y0 y1 = Inr mc'"
  using assms by (auto simp: update_block_at_def split: sum.splits)

lemma update_block_at_geometry:
  assumes "update_block_at mc op X0 X1 Y0 Y1 = Inr mc'"
  shows "bx_mc mc' = bx_mc mc \<and> by_mc mc' = by_mc mc \<and> in_mc mc' = in_mc mc \<and>
         out_mc mc' = out_mc mc"
  using assms by (elim update_block_at_Inr) (rule update_block_geometry)

lemma set_med_geometry:
  assumes "set_med avg mc x y = Inr mc'"
  shows "bx_mc mc' = bx_mc mc \<and> by_mc mc' = by_mc mc \<and> in_mc mc' = in_mc mc"
  using assms by (auto simp: set_med_def Let_def split: sum.splits prod.splits if_splits)

lemma w0_Inr:
  "w0 bd v = Inr r \<longleftrightarrow> b0 bd \<le> v \<and> v < b1 bd \<and> r = max 0 (int32 (v - h_d (dim bd)))"
  by (auto simp: w0_def)

lemma w1_Inr:
  "w1 bd v = Inr r \<longleftrightarrow>
     b0 bd \<le> v \<and> v < b1 bd \<and> r = min (int32 (int32 (v + 1) + h_d (dim bd))) (size_b bd)"
  by (auto simp: w1_def)

definition snake_measure :: "'a MedCalc2D \<times> int \<times> int \<times> bool \<Rightarrow> nat \<times> nat" where
  "snake_measure st =
     (case st of (mc, x, y, down) \<Rightarrow>
        (nat (b1 (bx_mc mc) - x),
         nat (if down then b1 (by_mc mc) - y else y - b0 (by_mc mc))))"

lemma snake_step_decreases:
  assumes "snake_step avg st = Inr (Some st')"
  shows "(snake_measure st', snake_measure st) \<in> less_than <*lex*> less_than"
proof -
  obtain mc x y down0 where st: "st = (mc, x, y, down0)" by (cases st) auto
  obtain right down where t: "snake_turn (by_mc mc) y down0 = (right, down)"
    by (cases "snake_turn (by_mc mc) y down0") auto
  let ?bx = "bx_mc mc" and ?by = "by_mc mc"
  have nb: "\<not> (right \<and> x + 1 = b1 ?bx)"
    using assms unfolding st snake_step_def by (auto simp: t Let_def)
  then consider (R) "right" "x + 1 \<noteq> b1 ?bx" | (D) "\<not> right" "down"
    | (U) "\<not> right" "\<not> down"
    by blast
  then show ?thesis
  proof cases
    case R
    from assms R obtain mc1 mc2 mc3 where
      s1: "update_block_at mc (-1) (w0 ?bx x) (w0 ?bx (x + 1)) (w0 ?by y) (w1 ?by y) = Inr mc1"
      and s2: "update_block_at mc1 1 (w1 ?bx (x + 1 - 1)) (w1 ?bx (x + 1)) (w0 ?by y) (w1 ?by y)
                = Inr mc2"
      and s3: "set_med avg mc2 (x + 1) y = Inr mc3"
      and st': "st' = (mc3, x + 1, y, down)"
      unfolding st snake_step_def by (auto simp: t Let_def split: sum.splits)
    have g: "bx_mc mc3 = ?bx" "by_mc mc3 = ?by"
      using update_block_at_geometry[OF s1] update_block_at_geometry[OF s2]
        set_med_geometry[OF s3] by simp_all
    from s1 obtain r where "w0 ?bx (x + 1) = Inr r" by (elim update_block_at_Inr)
    then have "x + 1 < b1 ?bx" by (simp add: w0_Inr)
    then show ?thesis by (simp add: st st' snake_measure_def g)
  next
    case D
    then have d0: "down0" "y + 1 \<noteq> b1 ?by"
      using t by (auto simp: snake_turn_def split: if_splits)
    from assms D obtain mc1 mc2 mc3 where
      s1: "update_block_at mc (-1) (w0 ?bx x) (w1 ?bx x) (w0 ?by y) (w0 ?by (y + 1)) = Inr mc1"
      and s2: "update_block_at mc1 1 (w0 ?bx x) (w1 ?bx x) (w1 ?by (y + 1 - 1)) (w1 ?by (y + 1))
                = Inr mc2"
      and s3: "set_med avg mc2 x (y + 1) = Inr mc3"
      and st': "st' = (mc3, x, y + 1, down)"
      unfolding st snake_step_def by (auto simp: t Let_def split: sum.splits)
    have g: "bx_mc mc3 = ?bx" "by_mc mc3 = ?by"
      using update_block_at_geometry[OF s1] update_block_at_geometry[OF s2]
        set_med_geometry[OF s3] by simp_all
    from s1 obtain r where "w0 ?by (y + 1) = Inr r" by (elim update_block_at_Inr)
    then have "y + 1 < b1 ?by" by (simp add: w0_Inr)
    then show ?thesis using D d0 by (simp add: st st' snake_measure_def g)
  next
    case U
    then have d0: "\<not> down0" "y \<noteq> b0 ?by"
      using t by (auto simp: snake_turn_def split: if_splits)
    from assms U obtain mc1 mc2 mc3 where
      s1: "update_block_at mc (-1) (w0 ?bx x) (w1 ?bx x) (w1 ?by (y - 1)) (w1 ?by y) = Inr mc1"
      and s2: "update_block_at mc1 1 (w0 ?bx x) (w1 ?bx x) (w0 ?by (y - 1)) (w0 ?by (y - 1 + 1))
                = Inr mc2"
      and s3: "set_med avg mc2 x (y - 1) = Inr mc3"
      and st': "st' = (mc3, x, y - 1, down)"
      unfolding st snake_step_def by (auto simp: t Let_def split: sum.splits)
    have g: "bx_mc mc3 = ?bx" "by_mc mc3 = ?by"
      using update_block_at_geometry[OF s1] update_block_at_geometry[OF s2]
        set_med_geometry[OF s3] by simp_all
    from s1 obtain r where "w1 ?by (y - 1) = Inr r" by (elim update_block_at_Inr)
    then have "b0 ?by \<le> y - 1" by (simp add: w1_Inr)
    then show ?thesis using U d0 by (simp add: st st' snake_measure_def g)
  qed
qed

function snake_loop ::
  "('a \<Rightarrow> 'a \<Rightarrow> 'a option) \<Rightarrow> 'a MedCalc2D \<times> int \<times> int \<times> bool \<Rightarrow> fault + 'a MedCalc2D" where
  "snake_loop avg st =
     (case snake_step avg st of
        Inl e \<Rightarrow> Inl e
      | Inr None \<Rightarrow> Inr (fst st)
      | Inr (Some st') \<Rightarrow> snake_loop avg st')"
  by pat_completeness auto
termination
  by (relation "inv_image (less_than <*lex*> less_than) (\<lambda>(avg, st). snake_measure st)")
    (auto dest: snake_step_decreases)

declare snake_loop.simps [simp del]

definition medians_snake ::
  "('a \<Rightarrow> 'a \<Rightarrow> 'a option) \<Rightarrow> 'a MedCalc2D \<Rightarrow> fault + 'a MedCalc2D" where
  "medians_snake avg mc =
     (let mc0 = mc\<lparr>wr_mc := WindowRank_clear (wr_mc mc)\<rparr>;
          x = b0 (bx_mc mc0);
          y = b0 (by_mc mc0)
      in case update_block_at mc0 1
                (w0 (bx_mc mc0) x) (w1 (bx_mc mc0) x) (w0 (by_mc mc0) y) (w1 (by_mc mc0) y) of
           Inl e \<Rightarrow> Inl e
         | Inr mc1 \<Rightarrow>
             (case set_med avg mc1 x y of
                Inl e \<Rightarrow> Inl e
              | Inr mc2 \<Rightarrow> snake_loop avg (mc2, x, y, True)))"

text \<open>\<open>naive\<close> tells whether the source is compiled with \<^verbatim>\<open>NAIVE\<close>.\<close>

definition medians ::
  "bool \<Rightarrow> ('a \<Rightarrow> 'a \<Rightarrow> 'a option) \<Rightarrow> 'a MedCalc2D \<Rightarrow> fault + 'a MedCalc2D" where
  "medians naive avg mc = (if naive then medians_naive avg mc else medians_snake avg mc)"

definition run ::
  "bool \<Rightarrow> ('a::linorder \<Rightarrow> 'a \<Rightarrow> 'a option) \<Rightarrow> 'a MedCalc2D \<Rightarrow> int \<Rightarrow> int
     \<Rightarrow> fault + 'a MedCalc2D" where
  "run naive avg mc bxi byi =
     (let mc1 = mc\<lparr>bx_mc := BDim_set (bx_mc mc) bxi, by_mc := BDim_set (by_mc mc) byi\<rparr>
      in case calc_rank mc1 of
           Inl e \<Rightarrow> Inl e
         | Inr mc2 \<Rightarrow> medians naive avg mc2)"

section \<open>The driver\<close>

definition median_filter_impl_2d ::
  "bool \<Rightarrow> ('a::{linorder,zero} \<Rightarrow> 'a \<Rightarrow> 'a option) \<Rightarrow> (nat \<Rightarrow> int \<Rightarrow> bool)
     \<Rightarrow> int \<Rightarrow> int \<Rightarrow> int \<Rightarrow> int \<Rightarrow> int
     \<Rightarrow> 'a option list \<Rightarrow> 'a option list \<Rightarrow> 'a option result" where
  "median_filter_impl_2d naive avg heap x y hx hy b inp outp =
     (if int32 (int32 (2 * hx) + 1) > b \<or> int32 (int32 (2 * hy) + 1) > b
      then Raised InvalidWindow outp
      else
        (case Dim_new b x hx of
           Inl e \<Rightarrow> Aborted e
         | Inr dimx \<Rightarrow>
             (case Dim_new b y hy of
                Inl e \<Rightarrow> Aborted e
              | Inr dimy \<Rightarrow>
                  (case MedCalc2D_new heap b dimx dimy inp outp of
                     Inl e \<Rightarrow> Raised e outp
                   | Inr (Inl e) \<Rightarrow> Aborted e
                   | Inr (Inr mc) \<Rightarrow>
                       (case iterate (for_range 0 (count_d dimy))
                               (\<lambda>byi. iterate (for_range 0 (count_d dimx))
                                        (\<lambda>bxi m. run naive avg m bxi byi)) mc of
                          Inl e \<Rightarrow> Aborted e
                        | Inr mc' \<Rightarrow> Returned (out_mc mc'))))))"

definition median_filter_2d ::
  "bool \<Rightarrow> ('a::{linorder,zero} \<Rightarrow> 'a \<Rightarrow> 'a option) \<Rightarrow> (nat \<Rightarrow> int \<Rightarrow> bool)
     \<Rightarrow> int \<Rightarrow> int \<Rightarrow> int \<Rightarrow> int \<Rightarrow> int
     \<Rightarrow> 'a option list \<Rightarrow> 'a option list \<Rightarrow> 'a option result" where
  "median_filter_2d naive avg heap x y hx hy blockhint inp outp =
     (let h = max hx hy;
          blocksize = (if blockhint \<noteq> 0 then blockhint else choose_blocksize_2d h)
      in median_filter_impl_2d naive avg heap x y hx hy blocksize inp outp)"

section \<open>Set bits of a word, in ascending order\<close>

definition word_bits :: "64 word \<Rightarrow> nat list" where
  "word_bits x = filter (bit x) [0..<64]"

section \<open>The grid of the specification\<close>

text \<open>
  The \<^verbatim>\<open>Dim\<close> of the data model: \<open>step = b - 2h\<close> and \<open>count = 1\<close> if \<open>size \<le> b\<close>, else
  the ceiling of \<open>(size - 2h) / step\<close>, over the integers.
\<close>

definition Dim_ideal :: "int \<Rightarrow> int \<Rightarrow> int \<Rightarrow> Dim" where
  "Dim_ideal b sz h =
     \<lparr>size_d = sz, h_d = h, step_d = b - 2 * h,
      count_d = (if sz \<le> b then 1
                 else \<lceil>real_of_int (sz - 2 * h) / real_of_int (b - 2 * h)\<rceil>)\<rparr>"

text \<open>
  The invariants that the constructor of \<^verbatim>\<open>Dim\<close> asserts, read over the integers, for a
  radius that is not negative and values of \<^verbatim>\<open>int\<close>.
\<close>

definition Dim_inv :: "int \<Rightarrow> Dim \<Rightarrow> bool" where
  "Dim_inv b d \<longleftrightarrow>
     0 \<le> h_d d \<and> 2 * h_d d + 1 < b \<and> b \<le> INT_MAX \<and> step_d d = b - 2 * h_d d \<and>
     1 \<le> size_d d \<and> size_d d \<le> INT_MAX \<and> 1 \<le> count_d d \<and>
     size_d d \<le> 2 * h_d d + count_d d * step_d d \<and>
     (2 * h_d d + (count_d d - 1) * step_d d < size_d d \<or> count_d d = 1)"

text \<open>The cut points between consecutive interiors.\<close>

definition cut :: "Dim \<Rightarrow> int \<Rightarrow> int" where
  "cut d i = (if i = 0 then 0 else if i = count_d d then size_d d
              else i * step_d d + h_d d)"

section \<open>Partition of the image by block interiors\<close>

definition axis_partition :: "Dim \<Rightarrow> bool" where
  "axis_partition d \<longleftrightarrow>
     (\<Union>i\<in>{0..<count_d d}. interior d i) = {0..<size_d d} \<and>
     (\<forall>i\<in>{0..<count_d d}. \<forall>j\<in>{0..<count_d d}.
        i \<noteq> j \<longrightarrow> interior d i \<inter> interior d j = {})"

definition block_interior :: "Dim \<Rightarrow> Dim \<Rightarrow> int \<times> int \<Rightarrow> (int \<times> int) set" where
  "block_interior dx dy ij = interior dx (fst ij) \<times> interior dy (snd ij)"

definition image_partition :: "Dim \<Rightarrow> Dim \<Rightarrow> bool" where
  "image_partition dx dy \<longleftrightarrow>
     (\<Union>ij\<in>{0..<count_d dx} \<times> {0..<count_d dy}. block_interior dx dy ij)
       = {0..<size_d dx} \<times> {0..<size_d dy} \<and>
     (\<forall>ij\<in>{0..<count_d dx} \<times> {0..<count_d dy}.
      \<forall>kl\<in>{0..<count_d dx} \<times> {0..<count_d dy}.
        ij \<noteq> kl \<longrightarrow> block_interior dx dy ij \<inter> block_interior dx dy kl = {})"

section \<open>The window as a set of positions\<close>

text \<open>The positions of the set bits of a buffer whose first word has index \<open>k\<close>, ascending.\<close>

fun bits_from :: "nat \<Rightarrow> 64 word list \<Rightarrow> int list" where
  "bits_from k [] = []"
| "bits_from k (x # xs) = map (\<lambda>j. int (64 * k + j)) (word_bits x) @ bits_from (Suc k) xs"

definition Window_bits :: "Window \<Rightarrow> int list" where
  "Window_bits w = bits_from 0 (buf_w w)"

text \<open>The test \<^verbatim>\<open>buf[s >> 6] & (ONE64 << (s & 63))\<close> of position \<open>s\<close>.\<close>

definition Window_test :: "Window \<Rightarrow> int \<Rightarrow> bool" where
  "Window_test w s \<longleftrightarrow>
     0 \<le> s \<and> s div 64 < int (length (buf_w w)) \<and>
     bit (buf_w w ! nat (s div 64)) (nat (s mod 64))"

text \<open>
  The invariant stated in the class: \<^verbatim>\<open>half[0]\<close> is the popcount of \<^verbatim>\<open>buf[0..p)\<close>,
  \<^verbatim>\<open>half[1]\<close> that of \<^verbatim>\<open>buf[p..words)\<close>.
\<close>

definition popcount_words :: "64 word list \<Rightarrow> int" where
  "popcount_words xs = sum_list (map popcnt64 xs)"

definition Window_inv :: "Window \<Rightarrow> bool" where
  "Window_inv w \<longleftrightarrow>
     1 \<le> words_w w \<and> int (length (buf_w w)) = words_w w \<and>
     0 \<le> p_w w \<and> p_w w < words_w w \<and>
     half0_w w = popcount_words (take (nat (p_w w)) (buf_w w)) \<and>
     half1_w w = popcount_words (drop (nat (p_w w)) (buf_w w))"

text \<open>
  The states of a window in use: constructed and cleared, then updated and queried
  without a fault.
\<close>

inductive Window_reachable :: "Window \<Rightarrow> bool" where
  init: "Window_new bb = Inr w \<Longrightarrow> Window_reachable (Window_clear w)"
| clear: "Window_reachable w \<Longrightarrow> Window_reachable (Window_clear w)"
| update: "Window_reachable w \<Longrightarrow> Window_update w op s = Inr w' \<Longrightarrow> Window_reachable w'"
| find: "Window_reachable w \<Longrightarrow> Window_find w goal = Inr (w', i) \<Longrightarrow> Window_reachable w'"

text \<open>Two windows over 200 positions, used as concrete instances: \<open>{3, 70, 150}\<close> and \<open>{70, 150}\<close>.\<close>

definition example_window :: Window where
  "example_window =
     \<lparr>words_w = 4, buf_w = [8, 64, 4194304, 0], half0_w = 2, half1_w = 1, p_w = 2\<rparr>"

definition example_window2 :: Window where
  "example_window2 =
     \<lparr>words_w = 4, buf_w = [0, 64, 4194304, 0], half0_w = 1, half1_w = 1, p_w = 2\<rparr>"

text \<open>An instance of \<^verbatim>\<open>T\<close> for concrete runs: the rationals, with the exact mean.\<close>

definition avg_rat :: "rat \<Rightarrow> rat \<Rightarrow> rat option" where
  "avg_rat a b = Some ((a + b) / 2)"

section \<open>The rank table of a block\<close>

text \<open>
  A block of \<open>n\<close> slots is described by \<open>val\<close>: the sample fed for slot \<open>s\<close>,
  \<open>0 \<le> s < n\<close>. \<open>fed_pairs val k\<close> are the pairs stored by feeding the slots \<open>0 \<dots> k - 1\<close>
  in order.
\<close>

definition fed_pairs :: "(int \<Rightarrow> 'a option) \<Rightarrow> int \<Rightarrow> ('a \<times> int) list" where
  "fed_pairs val k =
     concat (map (\<lambda>s. case val s of None \<Rightarrow> [] | Some a \<Rightarrow> [(a, s)]) (for_range 0 k))"

text \<open>The capacities set up by the constructor; no operation changes them.\<close>

definition WR_cap :: "'a WindowRank \<Rightarrow> bool" where
  "WR_cap wr \<longleftrightarrow>
     length (rank_wr wr) = length (sorted_wr wr) \<and>
     1 \<le> words_w (window_wr wr) \<and>
     int (length (buf_w (window_wr wr))) = words_w (window_wr wr) \<and>
     int (length (sorted_wr wr)) \<le> 64 * words_w (window_wr wr)"

text \<open>The state while \<^verbatim>\<open>calc_rank\<close> feeds: the slots \<open>0 \<dots> k - 1\<close> are fed.\<close>

definition fed :: "(int \<Rightarrow> 'a option) \<Rightarrow> int \<Rightarrow> 'a WindowRank \<Rightarrow> bool" where
  "fed val k wr \<longleftrightarrow>
     0 \<le> k \<and> k \<le> int (length (rank_wr wr)) \<and>
     size_wr wr = int (length (fed_pairs val k)) \<and>
     take (length (fed_pairs val k)) (sorted_wr wr) = fed_pairs val k \<and>
     (\<forall>s. 0 \<le> s \<and> s < k \<and> val s = None \<longrightarrow> rank_wr wr ! nat s = NAN_MARKER)"

text \<open>
  The state after \<^verbatim>\<open>init_finish\<close>: the first \<open>size\<close> pairs ascend, a slot with a NaN
  carries the marker, and the rank of any other slot is the place of its pair.
\<close>

definition ranked :: "(int \<Rightarrow> 'a::linorder option) \<Rightarrow> int \<Rightarrow> 'a WindowRank \<Rightarrow> bool" where
  "ranked val n wr \<longleftrightarrow>
     0 \<le> n \<and> n \<le> int (length (rank_wr wr)) \<and>
     0 \<le> size_wr wr \<and> size_wr wr \<le> int (length (sorted_wr wr)) \<and>
     sorted_wrt (<) (take (nat (size_wr wr)) (sorted_wr wr)) \<and>
     (\<forall>s. 0 \<le> s \<and> s < n \<longrightarrow>
        (case val s of
           None \<Rightarrow> rank_wr wr ! nat s = NAN_MARKER
         | Some a \<Rightarrow> 0 \<le> rank_wr wr ! nat s \<and> rank_wr wr ! nat s < size_wr wr \<and>
                     sorted_wr wr ! nat (rank_wr wr ! nat s) = (a, s)))"

text \<open>
  The state during \<^verbatim>\<open>medians\<close>: the window holds the ranks of the slots of \<open>S\<close> whose
  sample is not NaN.
\<close>

definition WR_inv ::
  "(int \<Rightarrow> 'a::linorder option) \<Rightarrow> int \<Rightarrow> int set \<Rightarrow> 'a WindowRank \<Rightarrow> bool" where
  "WR_inv val n S wr \<longleftrightarrow>
     WR_cap wr \<and> Window_inv (window_wr wr) \<and> ranked val n wr \<and> S \<subseteq> {0..<n} \<and>
     (\<forall>t. Window_test (window_wr wr) t \<longleftrightarrow>
          (\<exists>s\<in>S. val s \<noteq> None \<and> rank_wr wr ! nat s = t))"

section \<open>The median of a list of samples\<close>

text \<open>
  The reference of the specification: the samples that are NaN are dropped, the others
  sorted; with \<open>n\<close> of them left the median is NaN if \<open>n = 0\<close>, the element at
  \<open>(n - 1) / 2\<close> if that index equals \<open>n / 2\<close>, and else the mean of the elements at the
  two indices.
\<close>

definition median_of :: "('a \<Rightarrow> 'a \<Rightarrow> 'a option) \<Rightarrow> 'a::linorder option list \<Rightarrow> 'a option" where
  "median_of avg xs =
     (let ys = sort (map the (filter (\<lambda>x. x \<noteq> None) xs));
          n = length ys
      in if n = 0 then None
         else (let g1 = (n - 1) div 2;
                   g2 = n div 2
               in if g1 = g2 then Some (ys ! g1) else avg (ys ! g1) (ys ! g2)))"

section \<open>States of a \<^verbatim>\<open>WindowRank\<close> in use\<close>

text \<open>
  The initialisation that \<^verbatim>\<open>calc_rank\<close> performs for a block whose slots
  \<open>0 \<dots> length vs - 1\<close> hold the samples \<open>vs\<close>: \<^verbatim>\<open>init_start\<close>, one \<^verbatim>\<open>init_feed\<close> per
  slot in order, \<^verbatim>\<open>init_finish\<close>.
\<close>

definition init_block :: "'a::linorder WindowRank \<Rightarrow> 'a option list \<Rightarrow> fault + 'a WindowRank" where
  "init_block wr vs =
     (case iterate (for_range 0 (int (length vs))) (\<lambda>s r. init_feed r (vs ! nat s) s)
             (init_start wr) of
        Inl e \<Rightarrow> Inl e
      | Inr r \<Rightarrow> init_finish r)"

text \<open>
  \<open>WindowRank_state vs S wr\<close>: the object \<open>wr\<close> has been initialised for the block
  \<open>vs\<close> (which fits its capacity), cleared, and then updated without fault so that
  exactly the slots of \<open>S\<close> are inserted.
\<close>

inductive WindowRank_state ::
  "('a::{linorder,zero}) option list \<Rightarrow> int set \<Rightarrow> 'a WindowRank \<Rightarrow> bool" where
  new: "WindowRank_new bb = Inr wr0 \<Longrightarrow> length vs \<le> length (rank_wr wr0) \<Longrightarrow>
        init_block wr0 vs = Inr wr \<Longrightarrow> WindowRank_state vs {} (WindowRank_clear wr)"
| again: "WindowRank_state vs0 S0 wr0 \<Longrightarrow> length vs \<le> length (rank_wr wr0) \<Longrightarrow>
        init_block wr0 vs = Inr wr \<Longrightarrow> WindowRank_state vs {} (WindowRank_clear wr)"
| clear: "WindowRank_state vs S wr \<Longrightarrow> WindowRank_state vs {} (WindowRank_clear wr)"
| insert: "WindowRank_state vs S wr \<Longrightarrow> 0 \<le> s \<Longrightarrow> s < int (length vs) \<Longrightarrow> s \<notin> S \<Longrightarrow>
        WindowRank_update wr 1 s = Inr wr' \<Longrightarrow> WindowRank_state vs (insert s S) wr'"
| remove: "WindowRank_state vs S wr \<Longrightarrow> s \<in> S \<Longrightarrow>
        WindowRank_update wr (-1) s = Inr wr' \<Longrightarrow> WindowRank_state vs (S - {s}) wr'"
| med: "WindowRank_state vs S wr \<Longrightarrow> get_med avg wr = Inr (wr', v) \<Longrightarrow>
        WindowRank_state vs S wr'"

text \<open>A block of four slots, one of them NaN, and the object after inserting the slots 0, 1, 2.\<close>

definition example_block :: "rat option list" where
  "example_block = [Some 5, None, Some 2, Some 9]"

definition example_wr :: "64 word \<Rightarrow> int \<Rightarrow> rat WindowRank" where
  "example_wr b k =
     \<lparr>sorted_wr = [(2, 2), (5, 0), (9, 3), (0, 0)], rank_wr = [1, -1, 0, 2],
      window_wr = \<lparr>words_w = 1, buf_w = [b], half0_w = 0, half1_w = k, p_w = 0\<rparr>,
      bb_wr = 4, size_wr = 3\<rparr>"

section \<open>Properties of \<^verbatim>\<open>Dim\<close>\<close>

lemma int32_id: "INT_MIN \<le> k \<Longrightarrow> k \<le> INT_MAX \<Longrightarrow> int32 k = k"
  by (simp add: int32_def)

lemma int32_over: "INT_MAX < k \<Longrightarrow> k \<le> 6442450943 \<Longrightarrow> int32 k = k - 4294967296"
proof -
  assume a: "INT_MAX < k" "k \<le> 6442450943"
  have "(k + 2147483648) mod 4294967296 = (k + 2147483648 - 4294967296) mod 4294967296"
    by (metis minus_mod_self2)
  also have "\<dots> = k + 2147483648 - 4294967296"
    using a by (intro mod_pos_pos_trivial) simp_all
  finally show ?thesis by (simp add: int32_def)
qed

lemma sdiv_nonneg: "0 \<le> a \<Longrightarrow> 0 < s \<Longrightarrow> a sdiv s = a div (s::int)"
  by (simp add: signed_divide_int_def sgn_if)

lemma sdiv_neg_le0: "a < 0 \<Longrightarrow> 0 < s \<Longrightarrow> a sdiv (s::int) \<le> 0"
  by (simp add: signed_divide_int_def sgn_if pos_imp_zdiv_nonneg_iff)

lemma sdiv_neg_ge: "a < 0 \<Longrightarrow> 0 < s \<Longrightarrow> a \<le> a sdiv (s::int)"
proof -
  assume a: "a < 0" "0 < s"
  have "\<bar>a\<bar> div \<bar>s\<bar> \<le> \<bar>a\<bar>"
    using zdiv_mono2[of "\<bar>a\<bar>" 1 "\<bar>s\<bar>"] a by simp
  then show ?thesis using a by (simp add: signed_divide_int_def sgn_if)
qed

lemma ceil_div_bounds:
  fixes a s :: int
  assumes "0 < s"
  shows "a \<le> ((a + s - 1) div s) * s" and "((a + s - 1) div s - 1) * s < a"
proof -
  let ?q = "(a + s - 1) div s"
  have eq: "?q * s + (a + s - 1) mod s = a + s - 1"
    by simp
  have "0 \<le> (a + s - 1) mod s" "(a + s - 1) mod s < s"
    using assms by simp_all
  with eq show "a \<le> ?q * s" by linarith
  have "(?q - 1) * s = ?q * s - s"
    by (simp add: algebra_simps)
  with eq \<open>0 \<le> (a + s - 1) mod s\<close> show "(?q - 1) * s < a" by linarith
qed

lemma ceil_div_ceiling:
  fixes a s :: int
  assumes "0 < s"
  shows "(a + s - 1) div s = \<lceil>real_of_int a / real_of_int s\<rceil>"
proof -
  let ?q = "(a + s - 1) div s"
  have s: "0 < real_of_int s" using assms by simp
  have "real_of_int a \<le> real_of_int (?q * s)"
    using ceil_div_bounds(1)[OF assms, of a] by linarith
  then have up: "real_of_int a / real_of_int s \<le> real_of_int ?q"
    using s by (simp add: pos_divide_le_eq)
  have "real_of_int ((?q - 1) * s) < real_of_int a"
    using ceil_div_bounds(2)[OF assms, of a] by linarith
  then have lo: "real_of_int ?q - 1 < real_of_int a / real_of_int s"
    using s by (simp add: pos_less_divide_eq)
  from up lo show ?thesis
    by (simp add: ceiling_unique)
qed

lemma Dim_new_one_block:
  assumes "0 \<le> h" "2 * h + 1 < b" "b \<le> INT_MAX" "sz \<le> b"
  shows "Dim_new b sz h = Inr (Dim_ideal b sz h)"
  using assms
  by (simp add: Dim_new_def Dim_init_def calc_count_def calc_step_def Dim_asserts_def
      Dim_ideal_def int32_id)

lemma Dim_new_blocks:
  assumes h: "0 \<le> h" and hb: "2 * h + 1 < b" and b: "b \<le> INT_MAX"
    and sz: "b < sz" "sz \<le> INT_MAX"
  shows "Dim_new b sz h =
     (if sz + b - 4 * h - 1 \<le> INT_MAX \<and>
         2 * h + count_d (Dim_ideal b sz h) * (b - 2 * h) \<le> INT_MAX
      then Inr (Dim_ideal b sz h) else Inl AssertionFailed)"
proof -
  define s where "s = b - 2 * h"
  define n0 where "n0 = sz - 2 * h + s - 1"
  define c where "c = n0 div s"
  have s: "2 \<le> s" "s \<le> INT_MAX" using h hb b by (simp_all add: s_def)
  have n0: "s \<le> n0" "n0 \<le> 4294967294"
    using h hb b sz by (simp_all add: n0_def s_def)
  have n0e: "n0 = sz + b - 4 * h - 1"
    by (simp add: n0_def s_def)
  have cc: "c = \<lceil>real_of_int (sz - 2 * h) / real_of_int s\<rceil>"
    unfolding c_def n0_def using ceil_div_ceiling[of s "sz - 2 * h"] s by simp
  have ideal: "Dim_ideal b sz h = \<lparr>size_d = sz, h_d = h, step_d = s, count_d = c\<rparr>"
    using sz by (simp add: Dim_ideal_def cc s_def)
  have st: "calc_step b h = s"
    using h hb b by (simp add: calc_step_def s_def int32_id)
  have i2h: "int32 (2 * h) = 2 * h" "int32 (2 * h + 1) = 2 * h + 1"
    using h hb b by (simp_all add: int32_id)
  have interior: "int32 (sz - int32 (2 * h)) = sz - 2 * h"
    using h hb b sz by (simp add: int32_id)
  have num: "int32 (int32 (sz - 2 * h + s) - 1) = int32 n0"
    by (simp add: int32_def n0_def mod_simps)
  have up: "sz - 2 * h \<le> c * s" and lo: "(c - 1) * s < sz - 2 * h"
    using ceil_div_bounds[of s "sz - 2 * h"] s by (simp_all add: c_def n0_def)
  have cs: "c * s \<le> n0"
  proof -
    have "c * s + n0 mod s = n0" unfolding c_def by simp
    moreover have "0 \<le> n0 mod s" using s by simp
    ultimately show ?thesis by linarith
  qed
  have c1: "1 \<le> c"
  proof -
    have "0 < c * s" using up sz hb by linarith
    then have "0 < c" using s by (simp add: zero_less_mult_iff)
    then show ?thesis by simp
  qed
  have cn: "c \<le> n0"
    unfolding c_def using zdiv_mono2[of n0 1 s] n0 s by simp
  show ?thesis
  proof (cases "n0 \<le> INT_MAX")
    case True
    have numv: "int32 n0 = n0" using True n0 s by (simp add: int32_id)
    have "n0 sdiv s = c"
      using n0 s by (simp add: sdiv_nonneg c_def)
    moreover have "int32 c = c"
      using cn True c1 by (simp add: int32_id)
    ultimately have cnt: "calc_count b sz h = Inr c"
      using sz s n0 True
      by (simp add: calc_count_def Let_def st interior num numv)
    have init: "Dim_init b sz h = Inr \<lparr>size_d = sz, h_d = h, step_d = s, count_d = c\<rparr>"
      by (simp add: Dim_init_def cnt st)
    have cs0: "0 \<le> c * s" "0 \<le> (c - 1) * s"
      using c1 s by simp_all
    have m1: "int32 (c * s) = c * s"
      using cs True cs0 by (intro int32_id) linarith+
    have m2: "int32 (c - 1) = c - 1"
      using cn True c1 by (simp add: int32_id)
    have m3: "int32 ((c - 1) * s) = (c - 1) * s"
      using lo sz cs0 h by (intro int32_id) linarith+
    have m4: "int32 (2 * h + (c - 1) * s) = 2 * h + (c - 1) * s"
      using lo sz cs0 h by (intro int32_id) linarith+
    have a4: "2 * h + (c - 1) * s < sz" using lo by simp
    show ?thesis
    proof (cases "2 * h + c * s \<le> INT_MAX")
      case T2: True
      have m5: "int32 (2 * h + c * s) = 2 * h + c * s"
        using T2 h cs0 by (intro int32_id) linarith+
      have "Dim_asserts b \<lparr>size_d = sz, h_d = h, step_d = s, count_d = c\<rparr>"
        using hb c1 up a4 by (simp add: Dim_asserts_def i2h m1 m2 m3 m4 m5)
      then show ?thesis
        using True T2 by (simp add: Dim_new_def init ideal n0e[symmetric] s_def[symmetric])
    next
      case F2: False
      have "2 * h + c * s \<le> 6442450943" using cs n0 hb b by linarith
      then have m5: "int32 (2 * h + c * s) = 2 * h + c * s - 4294967296"
        using F2 by (simp add: int32_over)
      have "2 * h + c * s - 4294967296 < sz" using cs n0 hb b sz by linarith
      then have "\<not> Dim_asserts b \<lparr>size_d = sz, h_d = h, step_d = s, count_d = c\<rparr>"
        by (simp add: Dim_asserts_def i2h m1 m5)
      then show ?thesis
        using F2 by (simp add: Dim_new_def init ideal s_def[symmetric])
    qed
  next
    case False
    have numv: "int32 n0 = n0 - 4294967296" using False n0 by (simp add: int32_over)
    define q where "q = (n0 - 4294967296) sdiv s"
    have q: "q \<le> 0" "n0 - 4294967296 \<le> q"
      unfolding q_def using sdiv_neg_le0[of "n0 - 4294967296" s]
        sdiv_neg_ge[of "n0 - 4294967296" s] n0 s by simp_all
    have qv: "int32 q = q" using q False by (simp add: int32_id)
    have cnt: "calc_count b sz h = Inr q"
      using sz s n0 False
      by (simp add: calc_count_def Let_def st interior num numv q_def[symmetric] qv)
    have init: "Dim_init b sz h = Inr \<lparr>size_d = sz, h_d = h, step_d = s, count_d = q\<rparr>"
      by (simp add: Dim_init_def cnt st)
    have "\<not> Dim_asserts b \<lparr>size_d = sz, h_d = h, step_d = s, count_d = q\<rparr>"
      using q by (simp add: Dim_asserts_def)
    then show ?thesis
      using False by (simp add: Dim_new_def init n0e[symmetric])
  qed
qed

lemma Dim_ideal_inv:
  assumes "0 \<le> h" "2 * h + 1 < b" "b \<le> INT_MAX" "1 \<le> sz" "sz \<le> INT_MAX"
  shows "Dim_inv b (Dim_ideal b sz h)"
proof (cases "sz \<le> b")
  case True
  then show ?thesis using assms by (simp add: Dim_inv_def Dim_ideal_def)
next
  case False
  define s where "s = b - 2 * h"
  define c where "c = (sz - 2 * h + s - 1) div s"
  have s: "0 < s" using assms by (simp add: s_def)
  have cc: "c = \<lceil>real_of_int (sz - 2 * h) / real_of_int s\<rceil>"
    unfolding c_def using ceil_div_ceiling[of s "sz - 2 * h"] s by simp
  have up: "sz - 2 * h \<le> c * s" and lo: "(c - 1) * s < sz - 2 * h"
    using ceil_div_bounds[of s "sz - 2 * h"] s by (simp_all add: c_def)
  have "0 < c * s" using up False assms by linarith
  then have "0 < c" using s by (simp add: zero_less_mult_iff)
  moreover have "Dim_ideal b sz h = \<lparr>size_d = sz, h_d = h, step_d = s, count_d = c\<rparr>"
    using False by (simp add: Dim_ideal_def cc s_def)
  ultimately show ?thesis
    using assms up lo s_def by (simp add: Dim_inv_def)
qed

lemma Dim_new_Inr_ideal:
  assumes "0 \<le> h" "2 * h + 1 < b" "b \<le> INT_MAX" "1 \<le> sz" "sz \<le> INT_MAX"
    and "Dim_new b sz h = Inr d"
  shows "d = Dim_ideal b sz h"
proof (cases "sz \<le> b")
  case True
  then show ?thesis using assms Dim_new_one_block[of h b sz] by simp
next
  case False
  then show ?thesis
    using assms Dim_new_blocks[of h b sz] by (simp split: if_splits)
qed

lemma Dim_new_total:
  assumes "0 \<le> h" "2 * h + 1 < b" "1 \<le> sz" "sz + b \<le> INT_MAX"
  shows "Dim_new b sz h = Inr (Dim_ideal b sz h)"
proof (cases "sz \<le> b")
  case True
  then show ?thesis using assms Dim_new_one_block[of h b sz] by simp
next
  case False
  have inv: "Dim_inv b (Dim_ideal b sz h)"
    using assms by (intro Dim_ideal_inv) simp_all
  define c where "c = count_d (Dim_ideal b sz h)"
  define s where "s = b - 2 * h"
  have "2 * h + (c - 1) * s < sz" "1 \<le> c"
    using inv False by (auto simp: Dim_inv_def c_def s_def Dim_ideal_def)
  moreover have "(c - 1) * s = c * s - s" by (simp add: algebra_simps)
  ultimately have "2 * h + c * s < sz + s" by linarith
  then have "2 * h + c * s \<le> INT_MAX" using assms by (simp add: s_def)
  then show ?thesis
    using False assms Dim_new_blocks[of h b sz] by (simp add: c_def s_def)
qed

text \<open>
  Claim C7, at the input \<open>b = 8\<close>, \<open>size = 2147483647\<close>, \<open>h = 0\<close>: here \<open>2h + 1 < b\<close> and
  \<open>size \<ge> 1\<close>, so the claim expects \<open>count = \<lceil>size / 8\<rceil> = 268435456\<close> and every assertion
  of the constructor to hold. \<^verbatim>\<open>calc_count\<close> computes \<^verbatim>\<open>(interior + step - 1) / step\<close> in
  \<^verbatim>\<open>int\<close>; \<open>2147483647 + 8\<close> leaves the range, the quotient is \<open>-268435455\<close>, and the
  assertion \<^verbatim>\<open>count >= 1\<close> fails. (Lemma \<open>Dim_new_total\<close> above: the constructor returns
  the \<^verbatim>\<open>Dim\<close> of the data model whenever \<open>0 \<le> h\<close> and \<open>size + b\<close> is an \<^verbatim>\<open>int\<close>.)
\<close>

theorem count_overflows_near_INT_MAX:
  "2 * (0::int) + 1 < 8 \<and> (1::int) \<le> 2147483647 \<and>
   calc_step 8 0 = 8 \<and>
   calc_count 8 2147483647 0 = Inr (- 268435455) \<and>
   Dim_init 8 2147483647 0
     = Inr \<lparr>size_d = 2147483647, h_d = 0, step_d = 8, count_d = - 268435455\<rparr> \<and>
   \<not> Dim_asserts 8 \<lparr>size_d = 2147483647, h_d = 0, step_d = 8, count_d = - 268435455\<rparr> \<and>
   Dim_new 8 2147483647 0 = Inl AssertionFailed \<and>
   \<lceil>real_of_int (2147483647 - 2 * 0) / real_of_int (8 - 2 * 0)\<rceil> = (268435456 :: int)"
  by (simp add: Dim_new_def Dim_init_def calc_count_def calc_step_def Dim_asserts_def
      int32_def signed_divide_int_def Let_def)
section \<open>The interiors partition an axis\<close>

lemma dim_BDim_set [simp]: "dim (BDim_set bd i) = dim bd"
  by (simp add: BDim_set_def Let_def)

lemma dim_BDim_new [simp]: "dim (BDim_new d) = d"
  by (simp add: BDim_new_def)

lemma BDim_b0 [simp]: "b0 (BDim_set bd i) = (if i = 0 then 0 else h_d (dim bd))"
  by (simp add: BDim_set_def Let_def)

text \<open>Within the invariant of \<^verbatim>\<open>Dim\<close> no operation of \<^verbatim>\<open>BDim::set\<close> leaves the range of \<^verbatim>\<open>int\<close>.\<close>

lemma BDim_set_fields:
  assumes inv: "Dim_inv b (dim bd)" and i: "0 \<le> i" "i < count_d (dim bd)"
  shows "start (BDim_set bd i) = step_d (dim bd) * i"
    and "size_b (BDim_set bd i) =
     (if i + 1 = count_d (dim bd) then size_d (dim bd)
      else 2 * h_d (dim bd) + (i + 1) * step_d (dim bd)) - step_d (dim bd) * i"
    and "b1 (BDim_set bd i) =
     (if i + 1 = count_d (dim bd) then size_b (BDim_set bd i)
      else size_b (BDim_set bd i) - h_d (dim bd))"
proof -
  define d where "d = dim bd"
  define s where "s = step_d d"
  define h where "h = h_d d"
  define c where "c = count_d d"
  define sz where "sz = size_d d"
  have g: "2 * h + 1 < b" "b \<le> INT_MAX" "s = b - 2 * h"
    using inv unfolding Dim_inv_def d_def s_def h_def c_def sz_def by blast+
  have f: "0 \<le> h" "1 \<le> sz" "sz \<le> INT_MAX" "1 \<le> c" "2 * h + (c - 1) * s < sz \<or> c = 1"
    using inv unfolding Dim_inv_def d_def s_def h_def c_def sz_def by blast+
  have ic: "0 \<le> i" "i < c" using i by (simp_all add: c_def d_def)
  have s: "2 \<le> s" "2 * h + s \<le> INT_MAX" using g by simp_all
  have si0: "0 \<le> s * i" using s ic by simp
  have si: "s * i < sz"
  proof (cases "c = 1")
    case True
    then have "i = 0" using ic by simp
    then show ?thesis using f(2) by simp
  next
    case False
    have "s * i \<le> s * (c - 1)" using ic s by (intro mult_left_mono) simp_all
    moreover have "s * (c - 1) = (c - 1) * s" by simp
    moreover have "2 * h + (c - 1) * s < sz" using f(5) False by simp
    ultimately show ?thesis using f(1) by linarith
  qed
  have cM: "c \<le> INT_MAX"
  proof (cases "c = 1")
    case True
    then show ?thesis by simp
  next
    case False
    have "1 * (c - 1) \<le> s * (c - 1)" using s f by (intro mult_right_mono) simp_all
    then have "c - 1 \<le> s * (c - 1)" by (simp only: mult_1)
    moreover have "s * (c - 1) = (c - 1) * s" by simp
    moreover have "2 * h + (c - 1) * s < sz" using f(5) False by simp
    ultimately show ?thesis using f(1,3) by linarith
  qed
  have i1: "int32 (i + 1) = i + 1" using ic cM by (intro int32_id) linarith+
  have m0: "int32 (s * i) = s * i" using si0 si f by (intro int32_id) linarith+
  have m2h: "int32 (2 * h) = 2 * h" using f(1) s by (intro int32_id) linarith+
  have nl: "int32 ((i + 1) * s) = (i + 1) * s \<and>
      int32 (2 * h + (i + 1) * s) = 2 * h + (i + 1) * s \<and>
      int32 (2 * h + (i + 1) * s - s * i) = 2 * h + (i + 1) * s - s * i \<and>
      int32 (2 * h + (i + 1) * s - s * i - h) = 2 * h + (i + 1) * s - s * i - h"
    if "i + 1 \<noteq> c"
  proof -
    have c: "c \<noteq> 1" using that ic by linarith
    have "(i + 1) * s \<le> (c - 1) * s" using ic that s by (intro mult_right_mono) simp_all
    moreover have "0 \<le> (i + 1) * s" using ic s by simp
    moreover have "(i + 1) * s - s * i = s" by (simp add: algebra_simps)
    moreover have "2 * h + (c - 1) * s < sz" using f(5) c by simp
    ultimately show ?thesis
      using f(1,2,3) s by (intro conjI int32_id) linarith+
  qed
  have la: "int32 (sz - s * i) = sz - s * i" using si0 si f by (intro int32_id) linarith+
  show "start (BDim_set bd i) = step_d (dim bd) * i"
    using m0 by (simp add: BDim_set_def Let_def d_def s_def)
  show sb: "size_b (BDim_set bd i) =
     (if i + 1 = count_d (dim bd) then size_d (dim bd)
      else 2 * h_d (dim bd) + (i + 1) * step_d (dim bd)) - step_d (dim bd) * i"
    using m0 m2h i1 nl la
    by (simp add: BDim_set_def Let_def d_def[symmetric] s_def[symmetric] h_def[symmetric]
        c_def[symmetric] sz_def[symmetric])
  show "b1 (BDim_set bd i) =
     (if i + 1 = count_d (dim bd) then size_b (BDim_set bd i)
      else size_b (BDim_set bd i) - h_d (dim bd))"
    unfolding sb using m0 m2h i1 nl la
    by (simp add: BDim_set_def Let_def d_def[symmetric] s_def[symmetric] h_def[symmetric]
        c_def[symmetric] sz_def[symmetric])
qed

lemma interior_lo_cut:
  "Dim_inv b d \<Longrightarrow> 0 \<le> i \<Longrightarrow> i < count_d d \<Longrightarrow> interior_lo d i = cut d i"
  using BDim_set_fields(1)[of b "BDim_new d" i]
  by (simp add: interior_lo_def cut_def Let_def algebra_simps)

lemma interior_hi_cut:
  "Dim_inv b d \<Longrightarrow> 0 \<le> i \<Longrightarrow> i < count_d d \<Longrightarrow> interior_hi d i = cut d (i + 1)"
  using BDim_set_fields[of b "BDim_new d" i]
  by (simp add: interior_hi_def cut_def Let_def algebra_simps)

lemma cut_step:
  assumes a: "Dim_inv b d" and i: "0 \<le> i" "i < count_d d"
  shows "cut d i < cut d (i + 1)"
proof -
  have b: "2 * h_d d + 1 < b" and c: "1 \<le> count_d d"
    and lo: "2 * h_d d + (count_d d - 1) * step_d d < size_d d \<or> count_d d = 1"
    and s: "step_d d = b - 2 * h_d d" and h: "0 \<le> h_d d" and sz: "1 \<le> size_d d"
    using a unfolding Dim_inv_def by blast+
  have st: "0 < step_d d" "0 < step_d d + h_d d" using b s h by linarith+
  consider "i = 0" "count_d d = 1" | "i = 0" "1 < count_d d"
    | "0 < i" "i + 1 = count_d d" | "0 < i" "i + 1 < count_d d"
    using i by linarith
  then show ?thesis
  proof cases
    case 1
    then show ?thesis using sz by (simp add: cut_def)
  next
    case 2
    then show ?thesis using st by (simp add: cut_def)
  next
    case 3
    then have "count_d d - 1 = i" by simp
    with lo 3 have "2 * h_d d + i * step_d d < size_d d" by auto
    with 3 h show ?thesis by (simp add: cut_def)
  next
    case 4
    then show ?thesis using st by (simp add: cut_def algebra_simps)
  qed
qed

lemma chain_mono:
  fixes g :: "int \<Rightarrow> int"
  assumes "\<And>i. 0 \<le> i \<Longrightarrow> i < n \<Longrightarrow> g i < g (i + 1)"
    and "0 \<le> i" "i \<le> j" "j \<le> n"
  shows "g i \<le> g j"
  using \<open>i \<le> j\<close> \<open>j \<le> n\<close>
proof (induction j rule: int_ge_induct)
  case base
  show ?case by simp
next
  case (step k)
  then have "g k < g (k + 1)" using assms(1)[of k] assms(2) by simp
  with step show ?case by simp
qed

lemma chain_cover:
  fixes g :: "int \<Rightarrow> int"
  assumes "\<And>i. 0 \<le> i \<Longrightarrow> i < n \<Longrightarrow> g i < g (i + 1)"
    and "0 \<le> n" "g 0 \<le> v" "v < g n"
  shows "\<exists>i. 0 \<le> i \<and> i < n \<and> g i \<le> v \<and> v < g (i + 1)"
  using \<open>0 \<le> n\<close> assms(1) \<open>v < g n\<close>
proof (induction n rule: int_ge_induct)
  case base
  then show ?case using \<open>g 0 \<le> v\<close> by simp
next
  case (step k)
  show ?case
  proof (cases "v < g k")
    case True
    then obtain i where "0 \<le> i" "i < k" "g i \<le> v" "v < g (i + 1)"
      using step.IH step.prems by force
    then show ?thesis by (intro exI[of _ i]) simp
  next
    case False
    then show ?thesis using step.hyps step.prems by (intro exI[of _ k]) simp
  qed
qed

lemma interiors_partition_axis:
  assumes a: "Dim_inv b d"
  shows "axis_partition d"
proof -
  let ?n = "count_d d"
  have n: "1 \<le> ?n" using a unfolding Dim_inv_def by blast
  have stp: "\<And>i. 0 \<le> i \<Longrightarrow> i < ?n \<Longrightarrow> cut d i < cut d (i + 1)"
    using cut_step[OF a] .
  have int: "\<And>i. 0 \<le> i \<Longrightarrow> i < ?n \<Longrightarrow> interior d i = {cut d i ..< cut d (i + 1)}"
    using a by (simp add: interior_def interior_lo_cut interior_hi_cut)
  have c0: "cut d 0 = 0" and cn: "cut d ?n = size_d d"
    using n by (simp_all add: cut_def)
  have cover: "(\<Union>i\<in>{0..<?n}. interior d i) = {0..<size_d d}"
  proof (intro set_eqI iffI)
    fix v assume "v \<in> (\<Union>i\<in>{0..<?n}. interior d i)"
    then obtain i where i: "0 \<le> i" "i < ?n" and v: "cut d i \<le> v" "v < cut d (i + 1)"
      using int by auto
    have "cut d 0 \<le> cut d i" using chain_mono[of ?n "cut d" 0 i] stp i by simp
    moreover have "cut d (i + 1) \<le> cut d ?n"
      using chain_mono[of ?n "cut d" "i + 1" ?n] stp i by simp
    ultimately show "v \<in> {0..<size_d d}" using v c0 cn by simp
  next
    fix v assume "v \<in> {0..<size_d d}"
    then have "cut d 0 \<le> v" "v < cut d ?n" using c0 cn by simp_all
    then obtain i where "0 \<le> i" "i < ?n" "cut d i \<le> v" "v < cut d (i + 1)"
      using chain_cover[of ?n "cut d" v] stp n by auto
    then show "v \<in> (\<Union>i\<in>{0..<?n}. interior d i)" using int by auto
  qed
  have "\<forall>i\<in>{0..<?n}. \<forall>j\<in>{0..<?n}. i \<noteq> j \<longrightarrow> interior d i \<inter> interior d j = {}"
  proof (intro ballI impI)
    fix i j assume ij: "i \<in> {0..<?n}" "j \<in> {0..<?n}" "i \<noteq> j"
    have disj: "{cut d i ..< cut d (i + 1)} \<inter> {cut d j ..< cut d (j + 1)} = {}"
      if "0 \<le> i" "i < j" "j < ?n" for i j
    proof -
      have "cut d (i + 1) \<le> cut d j"
        using chain_mono[of ?n "cut d" "i + 1" j] stp that by simp
      then show ?thesis by auto
    qed
    from ij consider "i < j" | "j < i" by fastforce
    then show "interior d i \<inter> interior d j = {}"
    proof cases
      case 1
      then show ?thesis using disj[of i j] ij int by simp
    next
      case 2
      then show ?thesis using disj[of j i] ij int by (simp add: Int_commute)
    qed
  qed
  with cover show ?thesis unfolding axis_partition_def by blast
qed

lemma axis_partition_image:
  assumes "axis_partition dx" "axis_partition dy"
  shows "image_partition dx dy"
proof -
  have ux: "(\<Union>i\<in>{0..<count_d dx}. interior dx i) = {0..<size_d dx}"
    and uy: "(\<Union>i\<in>{0..<count_d dy}. interior dy i) = {0..<size_d dy}"
    using assms by (simp_all add: axis_partition_def)
  have dx: "\<And>i j. i \<in> {0..<count_d dx} \<Longrightarrow> j \<in> {0..<count_d dx} \<Longrightarrow> i \<noteq> j
        \<Longrightarrow> interior dx i \<inter> interior dx j = {}"
    and dy: "\<And>i j. i \<in> {0..<count_d dy} \<Longrightarrow> j \<in> {0..<count_d dy} \<Longrightarrow> i \<noteq> j
        \<Longrightarrow> interior dy i \<inter> interior dy j = {}"
    using assms by (simp_all add: axis_partition_def)
  have "(\<Union>ij\<in>{0..<count_d dx} \<times> {0..<count_d dy}. block_interior dx dy ij)
      = (\<Union>i\<in>{0..<count_d dx}. interior dx i) \<times> (\<Union>j\<in>{0..<count_d dy}. interior dy j)"
    by (auto simp: block_interior_def)
  then have cover: "(\<Union>ij\<in>{0..<count_d dx} \<times> {0..<count_d dy}. block_interior dx dy ij)
      = {0..<size_d dx} \<times> {0..<size_d dy}"
    by (simp only: ux uy)
  have disj: "block_interior dx dy ij \<inter> block_interior dx dy kl = {}"
    if "ij \<in> {0..<count_d dx} \<times> {0..<count_d dy}"
       "kl \<in> {0..<count_d dx} \<times> {0..<count_d dy}" "ij \<noteq> kl" for ij kl
  proof -
    obtain i j k l where e: "ij = (i, j)" "kl = (k, l)"
      by (cases ij, cases kl) blast
    from that e consider "i \<noteq> k" | "j \<noteq> l" by blast
    then show ?thesis
    proof cases
      case 1
      then have "interior dx i \<inter> interior dx k = {}"
        using dx[of i k] that e by simp
      then show ?thesis unfolding e block_interior_def by auto
    next
      case 2
      then have "interior dy j \<inter> interior dy l = {}"
        using dy[of j l] that e by simp
      then show ?thesis unfolding e block_interior_def by auto
    qed
  qed
  show ?thesis
    unfolding image_partition_def using cover disj by blast
qed

lemma Dim_ideal_size [simp]: "size_d (Dim_ideal b sz h) = sz"
  by (simp add: Dim_ideal_def)


text \<open>
  Claim C8 as stated fails for a negative \<open>h\<close>: \<open>b = 8\<close>, \<open>size = 9\<close>, \<open>h = -2\<close> satisfy
  \<open>size \<ge> 1\<close> and \<open>2h + 1 < b\<close>, the constructor of \<^verbatim>\<open>Dim\<close> passes its assertions with
  \<open>step = 12\<close> and \<open>count = 2\<close>, and the interiors of the two tiles are \<open>[0, 10)\<close> and the
  empty \<open>[10, 9)\<close>: their union is not \<open>[0, 9)\<close>.
\<close>

theorem negative_radius_breaks_partition:
  "2 * (- 2 :: int) + 1 < 8 \<and> (1::int) \<le> 9 \<and>
   Dim_new 8 9 (- 2) = Inr \<lparr>size_d = 9, h_d = - 2, step_d = 12, count_d = 2\<rparr> \<and>
   interior \<lparr>size_d = 9, h_d = - 2, step_d = 12, count_d = 2\<rparr> 0 = {0..<10} \<and>
   interior \<lparr>size_d = 9, h_d = - 2, step_d = 12, count_d = 2\<rparr> 1 = {} \<and>
   (\<Union>i\<in>{0..<2}. interior \<lparr>size_d = 9, h_d = - 2, step_d = 12, count_d = 2\<rparr> i) = {0..<10} \<and>
   \<not> axis_partition \<lparr>size_d = 9, h_d = - 2, step_d = 12, count_d = 2\<rparr>"
proof -
  let ?d = "\<lparr>size_d = 9, h_d = - 2, step_d = 12, count_d = 2\<rparr>"
  have d: "Dim_new 8 9 (- 2) = Inr ?d"
    by (simp add: Dim_new_def Dim_init_def calc_count_def calc_step_def Dim_asserts_def
        int32_def signed_divide_int_def Let_def)
  have i0: "interior ?d 0 = {0..<10}" and i1: "interior ?d 1 = {}"
    by (simp_all add: interior_def interior_lo_def interior_hi_def BDim_set_def BDim_new_def
        Let_def int32_def)
  have r: "{0..<2::int} = {0, 1}" by auto
  have u: "(\<Union>i\<in>{0..<2}. interior ?d i) = {0..<10}"
    unfolding r by (simp add: i0 i1)
  have "{0..<10::int} \<noteq> {0..<9}"
  proof
    assume "{0..<10::int} = {0..<9}"
    then have "(9::int) \<in> {0..<9}" by auto
    then show False by simp
  qed
  then have "\<not> axis_partition ?d"
    using u by (simp add: axis_partition_def)
  with d i0 i1 u show ?thesis by simp
qed

text \<open>
  Claim C8, amended with \<open>h \<ge> 0\<close>. For every \<open>b\<close>, \<open>size \<ge> 1\<close> and \<open>h \<ge> 0\<close> with \<open>2h + 1 < b\<close>
  (values of \<^verbatim>\<open>int\<close>), and every \<^verbatim>\<open>Dim\<close> that the constructor returns for them, the interior
  intervals \<open>[start + b0, start + b1)\<close> of the tiles \<open>0 \<le> i < count\<close>, as \<^verbatim>\<open>BDim::set\<close>
  computes them, are pairwise disjoint and their union is \<open>[0, size)\<close>; hence the interiors
  of the two-dimensional blocks are pairwise disjoint and cover the image
  \<open>[0, X) \<times> [0, Y)\<close>. The constructor returns whenever \<open>size + b\<close> is an \<^verbatim>\<open>int\<close>.
\<close>

theorem block_interiors_partition:
  assumes "0 \<le> hx" "0 \<le> hy" "2 * hx + 1 < b" "2 * hy + 1 < b" "b \<le> INT_MAX"
    and "1 \<le> X" "X \<le> INT_MAX" "1 \<le> Y" "Y \<le> INT_MAX"
  shows "(X + b \<le> INT_MAX \<and> Y + b \<le> INT_MAX \<longrightarrow>
            (\<exists>dx dy. Dim_new b X hx = Inr dx \<and> Dim_new b Y hy = Inr dy)) \<and>
         (\<forall>dx dy. Dim_new b X hx = Inr dx \<and> Dim_new b Y hy = Inr dy \<longrightarrow>
            axis_partition dx \<and> axis_partition dy \<and> image_partition dx dy \<and>
            size_d dx = X \<and> size_d dy = Y)"
proof (intro conjI impI allI)
  assume "X + b \<le> INT_MAX \<and> Y + b \<le> INT_MAX"
  then have "Dim_new b X hx = Inr (Dim_ideal b X hx)" "Dim_new b Y hy = Inr (Dim_ideal b Y hy)"
    using assms by (simp_all add: Dim_new_total)
  then show "\<exists>dx dy. Dim_new b X hx = Inr dx \<and> Dim_new b Y hy = Inr dy" by simp
next
  fix dx dy
  assume d: "Dim_new b X hx = Inr dx \<and> Dim_new b Y hy = Inr dy"
  have dx: "dx = Dim_ideal b X hx" and dy: "dy = Dim_ideal b Y hy"
    using d assms by (simp_all add: Dim_new_Inr_ideal)
  have "Dim_inv b dx" "Dim_inv b dy"
    unfolding dx dy using assms by (simp_all add: Dim_ideal_inv)
  then have p: "axis_partition dx" "axis_partition dy"
    by (simp_all add: interiors_partition_axis)
  then have "image_partition dx dy" by (rule axis_partition_image)
  with p show "axis_partition dx" "axis_partition dy" "image_partition dx dy"
    "size_d dx = X" "size_d dy = Y"
    by (simp_all add: dx dy)
qed

theorem block_interiors_partition_witness:
  "(0::int) \<le> 1 \<and> (0::int) \<le> 0 \<and> 2 * (1::int) + 1 < 8 \<and> 2 * (0::int) + 1 < 8 \<and>
   (8::int) \<le> INT_MAX \<and> (1::int) \<le> 20 \<and> (20::int) \<le> INT_MAX \<and>
   (1::int) \<le> 5 \<and> (5::int) \<le> INT_MAX \<and>
   (20::int) + 8 \<le> INT_MAX \<and> (5::int) + 8 \<le> INT_MAX \<and>
   Dim_new 8 20 1 = Inr \<lparr>size_d = 20, h_d = 1, step_d = 6, count_d = 3\<rparr> \<and>
   Dim_new 8 5 0 = Inr \<lparr>size_d = 5, h_d = 0, step_d = 8, count_d = 1\<rparr> \<and>
   axis_partition \<lparr>size_d = 20, h_d = 1, step_d = 6, count_d = 3\<rparr> \<and>
   axis_partition \<lparr>size_d = 5, h_d = 0, step_d = 8, count_d = 1\<rparr> \<and>
   image_partition \<lparr>size_d = 20, h_d = 1, step_d = 6, count_d = 3\<rparr>
     \<lparr>size_d = 5, h_d = 0, step_d = 8, count_d = 1\<rparr> \<and>
   interior \<lparr>size_d = 20, h_d = 1, step_d = 6, count_d = 3\<rparr> 0 = {0..<7} \<and>
   interior \<lparr>size_d = 20, h_d = 1, step_d = 6, count_d = 3\<rparr> 1 = {7..<13} \<and>
   interior \<lparr>size_d = 20, h_d = 1, step_d = 6, count_d = 3\<rparr> 2 = {13..<20} \<and>
   interior \<lparr>size_d = 5, h_d = 0, step_d = 8, count_d = 1\<rparr> 0 = {0..<5}"
proof -
  let ?dx = "\<lparr>size_d = 20, h_d = 1, step_d = 6, count_d = 3\<rparr>"
  let ?dy = "\<lparr>size_d = 5, h_d = 0, step_d = 8, count_d = 1\<rparr>"
  have h: "(0::int) \<le> 1" "(0::int) \<le> 0" "2 * (1::int) + 1 < 8" "2 * (0::int) + 1 < 8"
    "(8::int) \<le> INT_MAX" "(1::int) \<le> 20" "(20::int) \<le> INT_MAX"
    "(1::int) \<le> 5" "(5::int) \<le> INT_MAX" by simp_all
  have dx: "Dim_new 8 20 1 = Inr ?dx"
    by (simp add: Dim_new_def Dim_init_def calc_count_def calc_step_def Dim_asserts_def
        int32_def signed_divide_int_def Let_def)
  have dy: "Dim_new 8 5 0 = Inr ?dy"
    by (simp add: Dim_new_def Dim_init_def calc_count_def calc_step_def Dim_asserts_def
        int32_def signed_divide_int_def Let_def)
  have p: "axis_partition ?dx \<and> axis_partition ?dy \<and> image_partition ?dx ?dy"
    using block_interiors_partition[OF h] dx dy by simp
  have "interior ?dx 0 = {0..<7}" "interior ?dx 1 = {7..<13}" "interior ?dx 2 = {13..<20}"
    "interior ?dy 0 = {0..<5}"
    by (simp_all add: interior_def interior_lo_def interior_hi_def BDim_set_def BDim_new_def
        Let_def int32_def)
  with dx dy p show ?thesis by simp
qed

section \<open>Properties of the bit primitives\<close>

lemma popcnt64_word_bits: "popcnt64 x = int (length (word_bits x))"
  by (simp add: popcnt64_def word_bits_def)

lemma set_word_bits: "set (word_bits x) = {i. bit x i}"
  by (auto simp: word_bits_def dest: bit_imp_le_length)

lemma sorted_word_bits: "sorted (word_bits x)"
  unfolding word_bits_def by (rule sorted_wrt_filter) simp

lemma distinct_word_bits: "distinct (word_bits x)"
  by (simp add: word_bits_def)

lemma find_filter_hd:
  "List.find P xs = (case filter P xs of [] \<Rightarrow> None | y # _ \<Rightarrow> Some y)"
  by (induction xs) auto

lemma ctzll_word_bits:
  "ctzll x = (case word_bits x of [] \<Rightarrow> 64 | i # _ \<Rightarrow> int i)"
  by (simp add: ctzll_def word_bits_def find_filter_hd split: list.splits)

lemma tl_filter_upt:
  "tl (filter Q [0..<n]) = filter (\<lambda>j. Q j \<and> (\<exists>k<j. Q k)) [0..<n]"
proof (induction n)
  case 0
  show ?case by simp
next
  case (Suc n)
  have e: "filter Q [0..<n] = [] \<longleftrightarrow> (\<forall>k<n. \<not> Q k)"
    by (auto simp: filter_empty_conv)
  show ?case
  proof (cases "filter Q [0..<n] = []")
    case True
    then have "\<forall>k<n. \<not> Q k" using e by simp
    moreover from this have "filter (\<lambda>j. Q j \<and> (\<exists>k<j. Q k)) [0..<n] = []"
      by (auto simp: filter_empty_conv)
    ultimately show ?thesis using True by auto
  next
    case False
    then have "\<exists>k<n. Q k" using e by simp
    with False Suc show ?thesis by simp
  qed
qed

lemma nat_and_pred_bit:
  fixes n :: nat
  shows "bit (n AND (n - 1)) i \<longleftrightarrow> bit n i \<and> (\<exists>j<i. bit n j)"
proof (induction n arbitrary: i rule: less_induct)
  case (less n)
  show ?case
  proof (cases "n = 0")
    case True
    then show ?thesis by simp
  next
    case n0: False
    show ?thesis
    proof (cases "odd n")
      case True
      then have "(n - 1) div 2 = n div 2" "even (n - 1)"
        using n0 by (auto elim: oddE)
      then have eq: "n AND (n - 1) = 2 * (n div 2)"
        using True by (subst and_nat_rec) simp
      show ?thesis
      proof (cases i)
        case 0
        then show ?thesis unfolding eq by (simp add: bit_0)
      next
        case (Suc k)
        have "\<exists>j<Suc k. bit n j" using True by (intro exI[of _ 0]) (simp add: bit_0)
        then show ?thesis unfolding Suc eq by (simp add: bit_Suc)
      qed
    next
      case False
      then have "even n" by simp
      then obtain m where m: "n = 2 * m" by (rule evenE)
      with n0 have m0: "0 < m" by simp
      have "(n - 1) div 2 = m - 1" "odd (n - 1)"
        using m m0 by presburger+
      then have eq: "n AND (n - 1) = 2 * (m AND (m - 1))"
        using False m by (subst and_nat_rec) simp
      show ?thesis
      proof (cases i)
        case 0
        then show ?thesis unfolding eq by (simp add: bit_0)
      next
        case (Suc k)
        have "m < n" using m m0 by simp
        then have IH: "bit (m AND (m - 1)) k \<longleftrightarrow> bit m k \<and> (\<exists>j<k. bit m j)"
          by (rule less.IH)
        have "(\<exists>j<Suc k. bit n j) \<longleftrightarrow> (\<exists>j<k. bit m j)"
        proof
          assume "\<exists>j<Suc k. bit n j"
          then obtain j where j: "j < Suc k" "bit n j" by blast
          then have "j \<noteq> 0" using False by (auto simp: bit_0 intro: ccontr)
          then obtain j' where "j = Suc j'" by (cases j) auto
          with j m show "\<exists>j<k. bit m j" by (auto simp: bit_Suc)
        next
          assume "\<exists>j<k. bit m j"
          then obtain j where "j < k" "bit m j" by blast
          then show "\<exists>j<Suc k. bit n j"
            using m by (intro exI[of _ "Suc j"]) (simp add: bit_Suc)
        qed
        then show ?thesis unfolding Suc eq using IH m by (simp add: bit_Suc)
      qed
    qed
  qed
qed

lemma word_and_pred_bit:
  fixes x :: "64 word"
  shows "bit (x AND (x - 1)) i \<longleftrightarrow> bit x i \<and> (\<exists>j<i. bit x j)"
proof (cases "x = 0")
  case True
  then show ?thesis by simp
next
  case False
  have "bit (x AND (x - 1)) i \<longleftrightarrow> bit (unat (x AND (x - 1))) i"
    by (simp add: bit_unsigned_iff)
  also have "unat (x AND (x - 1)) = unat x AND (unat x - 1)"
    using False by (simp add: unsigned_and_eq unat_minus_one)
  also have "bit (unat x AND (unat x - 1)) i \<longleftrightarrow> bit (unat x) i \<and> (\<exists>j<i. bit (unat x) j)"
    by (rule nat_and_pred_bit)
  also have "\<dots> \<longleftrightarrow> bit x i \<and> (\<exists>j<i. bit x j)"
    by (simp add: bit_unsigned_iff)
  finally show ?thesis .
qed

lemma word_bits_and_pred: "word_bits (x AND (x - 1)) = tl (word_bits x)"
  unfolding word_bits_def tl_filter_upt
  by (rule filter_cong) (simp_all add: word_and_pred_bit)

lemma word_bits_clear_lowest: "word_bits (clear_lowest n x) = drop n (word_bits x)"
  by (induction n arbitrary: x) (simp_all add: word_bits_and_pred drop_Suc drop_tl)

lemma findnth64_word_bits:
  assumes "0 \<le> n" "n < popcnt64 x"
  shows "findnth64 x n = int (word_bits x ! nat n)"
proof -
  have l: "nat n < length (word_bits x)"
    using assms by (simp add: popcnt64_word_bits)
  then have "drop (nat n) (word_bits x) = word_bits x ! nat n # drop (Suc (nat n)) (word_bits x)"
    by (simp add: Cons_nth_drop_Suc)
  then show ?thesis
    by (simp add: findnth64_def ctzll_word_bits word_bits_clear_lowest)
qed

lemma filter_rank_upt:
  "filter (\<lambda>j. Q j \<and> length (filter Q [0..<j]) = n) [0..<N]
     = (if n < length (filter Q [0..<N]) then [filter Q [0..<N] ! n] else [])"
proof (induction N)
  case 0
  show ?case by simp
next
  case (Suc N)
  let ?L = "filter Q [0..<N]"
  show ?case
  proof (cases "Q N")
    case False
    then show ?thesis using Suc by simp
  next
    case True
    then have e: "filter Q [0..<Suc N] = ?L @ [N]" by simp
    consider "n < length ?L" | "n = length ?L" | "length ?L < n" by linarith
    then show ?thesis
    proof cases
      case 1
      then show ?thesis using Suc True by (simp add: nth_append)
    next
      case 2
      then show ?thesis using Suc True by (simp add: nth_append)
    next
      case 3
      then show ?thesis using Suc True by simp
    qed
  qed
qed

lemma pdep_fold:
  assumes "m \<le> 64"
  shows "fst (fold (pdep_step src msk) [0..<m] (0, 0)) = length (filter (bit msk) [0..<m]) \<and>
         (\<forall>j. bit (snd (fold (pdep_step src msk) [0..<m] (0, 0))) j \<longleftrightarrow>
                j < m \<and> bit msk j \<and> bit src (length (filter (bit msk) [0..<j])))"
  using assms
proof (induction m)
  case 0
  show ?case by simp
next
  case (Suc m)
  let ?s = "fold (pdep_step src msk) [0..<m] (0, 0)"
  have IH1: "fst ?s = length (filter (bit msk) [0..<m])"
    and IH2: "\<And>j. bit (snd ?s) j \<longleftrightarrow>
                j < m \<and> bit msk j \<and> bit src (length (filter (bit msk) [0..<j]))"
    using Suc by simp_all
  have f: "fold (pdep_step src msk) [0..<Suc m] (0, 0) = pdep_step src msk m ?s"
    by simp
  have m: "m < 64" using Suc.prems by simp
  obtain k d where s: "?s = (k, d)" by (cases ?s) blast
  have k: "k = length (filter (bit msk) [0..<m])" using IH1 s by simp
  have d: "\<And>j. bit d j \<longleftrightarrow>
      j < m \<and> bit msk j \<and> bit src (length (filter (bit msk) [0..<j]))"
    using IH2 s by simp
  have sb: "bit (set_bit m d) j \<longleftrightarrow> bit d j \<or> j = m" for j
    using m by (auto simp: bit_set_bit_iff)
  show ?case
  proof (cases "bit msk m")
    case False
    then have "pdep_step src msk m (k, d) = (k, d)"
      by (simp add: pdep_step_def)
    then show ?thesis
      unfolding f s using False k d by (auto simp: less_Suc_eq)
  next
    case True
    show ?thesis
    proof (cases "bit src k")
      case False
      then have "pdep_step src msk m (k, d) = (k + 1, d)"
        using True by (simp add: pdep_step_def)
      then show ?thesis
        unfolding f s using True False k d by (auto simp: less_Suc_eq)
    next
      case bk: True
      then have "pdep_step src msk m (k, d) = (k + 1, set_bit m d)"
        using True by (simp add: pdep_step_def)
      then show ?thesis
        unfolding f s using True bk k d sb by (auto simp: less_Suc_eq)
    qed
  qed
qed

lemma bit_pdep_u64:
  "bit (pdep_u64 src msk) j \<longleftrightarrow>
     bit msk j \<and> bit src (length (filter (bit msk) [0..<j]))"
proof -
  have "bit (pdep_u64 src msk) j \<longleftrightarrow>
      j < 64 \<and> bit msk j \<and> bit src (length (filter (bit msk) [0..<j]))"
    unfolding pdep_u64_def using pdep_fold[of 64 src msk] by blast
  moreover have "bit msk j \<Longrightarrow> j < 64"
    using bit_imp_le_length[of msk j] by simp
  ultimately show ?thesis by blast
qed

lemma word_bits_pdep_one:
  assumes "n < length (word_bits x)"
  shows "word_bits (pdep_u64 (push_bit n ONE64) x) = [word_bits x ! n]"
proof -
  have "length (word_bits x) \<le> length [0..<64::nat]"
    unfolding word_bits_def by (rule length_filter_le)
  then have n: "n < 64"
    using assms by (simp del: upt_rec_numeral)
  have b: "bit ((2::64 word) ^ n) k \<longleftrightarrow> k = n" for k
    using n by (auto simp: bit_exp_iff possible_bit_word)
  have "word_bits (pdep_u64 (push_bit n ONE64) x)
      = filter (\<lambda>j. bit x j \<and> length (filter (bit x) [0..<j]) = n) [0..<64]"
    unfolding word_bits_def by (rule filter_cong) (simp_all add: bit_pdep_u64 b)
  also have "\<dots> = [word_bits x ! n]"
    using assms unfolding word_bits_def by (simp only: filter_rank_upt if_True)
  finally show ?thesis .
qed

lemma findnth64_pdep_word_bits:
  assumes "0 \<le> n" "n < popcnt64 x"
  shows "findnth64_pdep x n = int (word_bits x ! nat n)"
proof -
  have "nat n < length (word_bits x)"
    using assms by (simp add: popcnt64_word_bits)
  then have "word_bits (pdep_u64 (push_bit (nat n) ONE64) x) = [word_bits x ! nat n]"
    by (rule word_bits_pdep_one)
  then show ?thesis
    unfolding findnth64_pdep_def ctzll_word_bits by simp
qed

lemma findnth64_pdep_eq:
  "0 \<le> n \<Longrightarrow> n < popcnt64 x \<Longrightarrow> findnth64_pdep x n = findnth64 x n"
  by (simp add: findnth64_pdep_word_bits findnth64_word_bits)

text \<open>The \<open>n\<close>-th element of the ascending list: the bit is set, \<open>n\<close> set bits lie below.\<close>

lemma filter_upt_nth:
  assumes "n < length (filter Q [0..<N])"
  shows "Q (filter Q [0..<N] ! n) \<and> filter Q [0..<N] ! n < N \<and>
         length (filter Q [0..<filter Q [0..<N] ! n]) = n"
proof -
  let ?i = "filter Q [0..<N] ! n"
  have "[?i] = filter (\<lambda>j. Q j \<and> length (filter Q [0..<j]) = n) [0..<N]"
    using assms by (simp add: filter_rank_upt)
  then have "?i \<in> set (filter (\<lambda>j. Q j \<and> length (filter Q [0..<j]) = n) [0..<N])"
    by (metis list.set_intros(1))
  then show ?thesis by simp
qed

lemma word_bits_nth:
  assumes "n < length (word_bits x)"
  shows "bit x (word_bits x ! n)" and "word_bits x ! n < 64"
    and "card {j. j < word_bits x ! n \<and> bit x j} = n"
proof -
  let ?i = "word_bits x ! n"
  have *: "bit x ?i \<and> ?i < 64 \<and> length (filter (bit x) [0..<?i]) = n"
    using filter_upt_nth[of n "bit x" 64] assms unfolding word_bits_def by blast
  then show "bit x ?i" "?i < 64" by simp_all
  have "length (filter (bit x) [0..<?i]) = card {j. j < ?i \<and> bit x j}"
    by (simp add: distinct_length_filter Int_def conj_commute)
  with * show "card {j. j < ?i \<and> bit x j} = n" by simp
qed

section \<open>Properties of \<^verbatim>\<open>Window\<close>\<close>

lemma popcount_words_simps [simp]:
  "popcount_words [] = 0"
  "popcount_words (x # xs) = popcnt64 x + popcount_words xs"
  "popcount_words (xs @ ys) = popcount_words xs + popcount_words ys"
  by (simp_all add: popcount_words_def)

lemma popcnt64_nonneg [simp]: "0 \<le> popcnt64 x"
  by (simp add: popcnt64_def)

lemma popcount_words_nonneg [simp]: "0 \<le> popcount_words xs"
  by (induction xs) simp_all

lemma popcount_words_replicate_0 [simp]: "popcount_words (replicate n 0) = 0"
proof -
  have "set (word_bits 0) = {}"
    unfolding set_word_bits by simp
  then have "word_bits 0 = []" by simp
  then show ?thesis by (induction n) (simp_all add: popcnt64_word_bits)
qed

lemma popcount_words_take_drop:
  "popcount_words (take n xs) + popcount_words (drop n xs) = popcount_words xs"
  using popcount_words_simps(3)[of "take n xs" "drop n xs"] by simp

lemma popcount_words_update:
  assumes "i < length xs"
  shows "popcount_words (xs[i := v]) = popcount_words xs - popcnt64 (xs ! i) + popcnt64 v"
proof -
  have "xs = take i xs @ xs ! i # drop (Suc i) xs"
    using assms by (rule id_take_nth_drop)
  moreover have "xs[i := v] = take i xs @ v # drop (Suc i) xs"
    using assms by (rule upd_conv_take_nth_drop)
  ultimately have "popcount_words xs = popcount_words (take i xs) + popcnt64 (xs ! i)
        + popcount_words (drop (Suc i) xs)"
    and "popcount_words (xs[i := v]) = popcount_words (take i xs) + popcnt64 v
        + popcount_words (drop (Suc i) xs)"
    by (metis popcount_words_simps(2,3) add.assoc)+
  then show ?thesis by simp
qed

lemma length_bits_from: "int (length (bits_from k xs)) = popcount_words xs"
  by (induction xs arbitrary: k) (simp_all add: popcnt64_word_bits)

lemma bits_from_append:
  "bits_from k (xs @ ys) = bits_from k xs @ bits_from (k + length xs) ys"
  by (induction xs arbitrary: k) simp_all

lemma word_bits_less: "j \<in> set (word_bits x) \<Longrightarrow> j < 64"
  using bit_imp_le_length[of x j] by (simp add: set_word_bits)

lemma div64_ge: "64 * a \<le> (s::int) \<Longrightarrow> a \<le> s div 64"
  by linarith

lemma div64_le: "a \<le> (s::int) div 64 \<Longrightarrow> 64 * a \<le> s"
  by linarith

lemma set_bits_from:
  "set (bits_from k xs) =
     {s. int (64 * k) \<le> s \<and> s div 64 < int (k + length xs) \<and>
         bit (xs ! (nat (s div 64) - k)) (nat (s mod 64))}"
proof (induction xs arbitrary: k)
  case Nil
  show ?case by auto
next
  case (Cons x xs)
  have A: "set (map (\<lambda>j. int (64 * k + j)) (word_bits x))
      = {s. int (64 * k) \<le> s \<and> s div 64 < int (Suc k) \<and> bit x (nat (s mod 64))}"
  proof (intro set_eqI iffI)
    fix s assume "s \<in> set (map (\<lambda>j. int (64 * k + j)) (word_bits x))"
    then obtain j where j: "j \<in> set (word_bits x)" "s = int (64 * k + j)" by auto
    then have "j < 64" "bit x j"
      using set_word_bits[of x] word_bits_less[of j x] by auto
    moreover from this j have "s div 64 = int k" "s mod 64 = int j" by simp_all
    ultimately show "s \<in> {s. int (64 * k) \<le> s \<and> s div 64 < int (Suc k) \<and> bit x (nat (s mod 64))}"
      using j by simp
  next
    fix s assume "s \<in> {s. int (64 * k) \<le> s \<and> s div 64 < int (Suc k) \<and> bit x (nat (s mod 64))}"
    then have s: "int (64 * k) \<le> s" "s div 64 < int (Suc k)" "bit x (nat (s mod 64))" by simp_all
    then have "int k \<le> s div 64" by (intro div64_ge) simp
    with s have "s div 64 = int k" by linarith
    then have "s = int (64 * k + nat (s mod 64))"
      using mult_div_mod_eq[of 64 s] by simp
    moreover have "nat (s mod 64) \<in> set (word_bits x)"
      using s by (simp add: set_word_bits)
    ultimately show "s \<in> set (map (\<lambda>j. int (64 * k + j)) (word_bits x))"
      by (metis (no_types, lifting) image_eqI set_map)
  qed
  have B: "set (bits_from (Suc k) xs)
      = {s. int (64 * Suc k) \<le> s \<and> s div 64 < int (Suc k + length xs) \<and>
            bit (xs ! (nat (s div 64) - Suc k)) (nat (s mod 64))}"
    by (rule Cons.IH)
  show ?case
  proof (intro set_eqI iffI)
    fix s assume "s \<in> set (bits_from k (x # xs))"
    then consider "s \<in> set (map (\<lambda>j. int (64 * k + j)) (word_bits x))"
      | "s \<in> set (bits_from (Suc k) xs)" by auto
    then show "s \<in> {s. int (64 * k) \<le> s \<and> s div 64 < int (k + length (x # xs)) \<and>
         bit ((x # xs) ! (nat (s div 64) - k)) (nat (s mod 64))}"
    proof cases
      case 1
      then have s: "int (64 * k) \<le> s" "s div 64 < int (Suc k)" "bit x (nat (s mod 64))"
        unfolding A by simp_all
      then have "int k \<le> s div 64" by (intro div64_ge) simp
      with s have "s div 64 = int k" by linarith
      with s show ?thesis by simp
    next
      case 2
      then have s: "int (64 * Suc k) \<le> s" "s div 64 < int (Suc k + length xs)"
        "bit (xs ! (nat (s div 64) - Suc k)) (nat (s mod 64))"
        unfolding B by simp_all
      then have "int (Suc k) \<le> s div 64" by (intro div64_ge) simp
      then obtain d where d: "nat (s div 64) - k = Suc d" "nat (s div 64) - Suc k = d"
        by (metis Suc_diff_Suc diff_Suc_eq_diff_pred nat_int nat_mono Suc_le_lessD
            diff_Suc_1)
      with s show ?thesis by simp
    qed
  next
    fix s assume "s \<in> {s. int (64 * k) \<le> s \<and> s div 64 < int (k + length (x # xs)) \<and>
         bit ((x # xs) ! (nat (s div 64) - k)) (nat (s mod 64))}"
    then have s: "int (64 * k) \<le> s" "s div 64 < int (k + length (x # xs))"
      "bit ((x # xs) ! (nat (s div 64) - k)) (nat (s mod 64))" by simp_all
    then have k: "int k \<le> s div 64" by (intro div64_ge) simp
    show "s \<in> set (bits_from k (x # xs))"
    proof (cases "s div 64 = int k")
      case True
      then have "s \<in> set (map (\<lambda>j. int (64 * k + j)) (word_bits x))"
        unfolding A using s by simp
      then show ?thesis by simp
    next
      case False
      then have k': "int (Suc k) \<le> s div 64" using k by linarith
      then obtain d where d: "nat (s div 64) - k = Suc d" "nat (s div 64) - Suc k = d"
        by (metis Suc_diff_Suc diff_Suc_eq_diff_pred nat_int nat_mono Suc_le_lessD
            diff_Suc_1)
      have "int (64 * Suc k) \<le> s" using div64_le[OF k'] by simp
      then have "s \<in> set (bits_from (Suc k) xs)"
        unfolding B using s k' d by simp
      then show ?thesis by simp
    qed
  qed
qed

lemma set_Window_bits: "set (Window_bits w) = {s. Window_test w s}"
  by (auto simp: Window_bits_def Window_test_def set_bits_from)

lemma bits_from_bounds:
  "s \<in> set (bits_from k xs) \<Longrightarrow> int (64 * k) \<le> s \<and> s < int (64 * (k + length xs))"
  unfolding set_bits_from by auto

lemma sorted_bits_from: "sorted_wrt (<) (bits_from k xs)"
proof (induction xs arbitrary: k)
  case Nil
  show ?case by simp
next
  case (Cons x xs)
  have "sorted_wrt (<) (word_bits x)"
    using sorted_word_bits distinct_word_bits by (simp add: strict_sorted_iff)
  then have 1: "sorted_wrt (<) (map (\<lambda>j. int (64 * k + j)) (word_bits x))"
    by (simp add: sorted_wrt_map)
  have 2: "a < b" if "a \<in> set (map (\<lambda>j. int (64 * k + j)) (word_bits x))"
    "b \<in> set (bits_from (Suc k) xs)" for a b
  proof -
    from that(1) obtain j where "j \<in> set (word_bits x)" "a = int (64 * k + j)" by auto
    then have "a < int (64 * Suc k)" using word_bits_less[of j x] by simp
    moreover have "int (64 * Suc k) \<le> b" using bits_from_bounds[OF that(2)] by simp
    ultimately show ?thesis by linarith
  qed
  show ?case
    using 1 2 Cons.IH[of "Suc k"] by (simp add: sorted_wrt_append)
qed

lemma sorted_Window_bits: "sorted_wrt (<) (Window_bits w)"
  by (simp add: Window_bits_def sorted_bits_from)

lemma length_Window_bits: "int (length (Window_bits w)) = popcount_words (buf_w w)"
  by (simp add: Window_bits_def length_bits_from)

lemma Window_inv_size:
  "Window_inv w \<Longrightarrow> Window_size w = popcount_words (buf_w w)"
  by (simp add: Window_inv_def Window_size_def popcount_words_take_drop)

lemma int_shift_mask:
  fixes s :: int
  shows "drop_bit 6 s = s div 64" and "s AND 63 = s mod 64"
proof -
  show "drop_bit 6 s = s div 64" by (simp add: drop_bit_eq_div)
  have "s AND 63 = take_bit 6 s"
    by (simp add: take_bit_eq_mask mask_eq_exp_minus_1)
  then show "s AND 63 = s mod 64" by (simp add: take_bit_eq_mod)
qed

lemma int_shift_or:
  fixes q j :: int
  assumes "0 \<le> j" "j < 64"
  shows "push_bit 6 q OR j = 64 * q + j"
proof -
  have j: "take_bit 6 j = j" using assms by (simp add: take_bit_int_eq_self)
  have "push_bit 6 q AND take_bit 6 j = 0"
    by (rule bit_eqI) (auto simp: bit_simps)
  then have "push_bit 6 q + take_bit 6 j = push_bit 6 q OR take_bit 6 j"
    by (rule disjunctive_add_eq_or)
  then show ?thesis by (simp add: j push_bit_eq_mult)
qed

lemma popcnt64_card: "popcnt64 x = int (card {k. bit x k})"
  using distinct_card[OF distinct_word_bits, of x]
  by (simp add: popcnt64_word_bits set_word_bits)

lemma finite_bits: "finite {k. bit (x::64 word) k}"
  using finite_set[of "word_bits x"] by (simp only: set_word_bits)

lemma popcnt64_xor_bit:
  assumes "j < 64"
  shows "popcnt64 (x XOR 2 ^ j) = (if bit x j then popcnt64 x - 1 else popcnt64 x + 1)"
proof -
  have b: "bit (x XOR 2 ^ j) k \<longleftrightarrow> (bit x k \<noteq> (k = j))" for k
    using assms by (auto simp: bit_xor_iff bit_exp_iff possible_bit_word)
  show ?thesis
  proof (cases "bit x j")
    case True
    then have "{k. bit (x XOR 2 ^ j) k} = {k. bit x k} - {j}"
      using b by auto
    moreover have "j \<in> {k. bit x k}" using True by simp
    ultimately have "card {k. bit (x XOR 2 ^ j) k} = card {k. bit x k} - 1"
      and "0 < card {k. bit x k}"
      using finite_bits[of x] by (simp_all add: card_gt_0_iff) blast
    then show ?thesis using True by (simp add: popcnt64_card)
  next
    case False
    then have "{k. bit (x XOR 2 ^ j) k} = insert j {k. bit x k}"
      using b by auto
    moreover have "j \<notin> {k. bit x k}" using False by simp
    ultimately have "card {k. bit (x XOR 2 ^ j) k} = card {k. bit x k} + 1"
      using finite_bits[of x] by simp
    then show ?thesis using False by (simp add: popcnt64_card)
  qed
qed

lemma Window_update_Inr:
  assumes "Window_update w op s = Inr w'"
  shows "(op = 1 \<or> op = -1)" and "0 \<le> s" and "s div 64 < int (length (buf_w w))"
    and "op = 1 \<longleftrightarrow> \<not> Window_test w s"
    and "buf_w w' = (buf_w w)[nat (s div 64) := buf_w w ! nat (s div 64) XOR 2 ^ nat (s mod 64)]"
    and "words_w w' = words_w w" and "p_w w' = p_w w"
    and "half0_w w' = (if s div 64 \<ge> p_w w then half0_w w else half0_w w + op)"
    and "half1_w w' = (if s div 64 \<ge> p_w w then half1_w w + op else half1_w w)"
proof -
  let ?i = "s div 64" and ?j = "nat (s mod 64)"
  let ?cur = "buf_w w ! nat ?i"
  have nz: "?cur AND 2 ^ ?j \<noteq> 0 \<longleftrightarrow> bit ?cur ?j"
    by (simp add: and_exp_eq_0_iff_not_bit)
  from assms show op: "op = 1 \<or> op = -1"
    by (auto simp: Window_update_def split: if_splits)
  from assms have r: "0 \<le> ?i" "?i < int (length (buf_w w))"
    by (auto simp: Window_update_def int_shift_mask Let_def split: if_splits)
  then show "0 \<le> s" "?i < int (length (buf_w w))" by linarith+
  then have t: "Window_test w s \<longleftrightarrow> bit ?cur ?j"
    by (simp add: Window_test_def)
  from assms r show "op = 1 \<longleftrightarrow> \<not> Window_test w s"
    unfolding t using op nz
    by (auto simp: Window_update_def int_shift_mask Let_def split: if_splits)
  from assms r show
    "buf_w w' = (buf_w w)[nat ?i := ?cur XOR 2 ^ ?j]"
    "words_w w' = words_w w" "p_w w' = p_w w"
    "half0_w w' = (if ?i \<ge> p_w w then half0_w w else half0_w w + op)"
    "half1_w w' = (if ?i \<ge> p_w w then half1_w w + op else half1_w w)"
    by (auto simp: Window_update_def int_shift_mask Let_def split: if_splits)
qed

lemma Window_update_popcnt:
  assumes "Window_update w op s = Inr w'"
  shows "popcnt64 (buf_w w ! nat (s div 64) XOR 2 ^ nat (s mod 64))
           = popcnt64 (buf_w w ! nat (s div 64)) + op"
proof -
  note u = Window_update_Inr[OF assms]
  have j: "nat (s mod 64) < 64" by simp
  have t: "Window_test w s \<longleftrightarrow> bit (buf_w w ! nat (s div 64)) (nat (s mod 64))"
    using u(2,3) by (simp add: Window_test_def)
  show ?thesis
    using u(1,4) unfolding t popcnt64_xor_bit[OF j] by auto
qed

lemma Window_update_inv:
  assumes "Window_update w op s = Inr w'" "Window_inv w"
  shows "Window_inv w'"
proof -
  note u = Window_update_Inr[OF assms(1)]
  note pc = Window_update_popcnt[OF assms(1)]
  let ?i = "nat (s div 64)" and ?p = "nat (p_w w)"
  let ?v = "buf_w w ! ?i XOR 2 ^ nat (s mod 64)"
  have i: "?i < length (buf_w w)" using u(2,3) by simp
  have inv: "1 \<le> words_w w" "int (length (buf_w w)) = words_w w" "0 \<le> p_w w"
    "p_w w < words_w w" "half0_w w = popcount_words (take ?p (buf_w w))"
    "half1_w w = popcount_words (drop ?p (buf_w w))"
    using assms(2) by (simp_all add: Window_inv_def)
  have p: "?p \<le> length (buf_w w)" using inv(2,4) by simp
  have b': "buf_w w' = (buf_w w)[?i := ?v]" by (rule u(5))
  have len: "int (length (buf_w w')) = words_w w'"
    unfolding b' u(6) using inv(2) by simp
  have halves: "half0_w w' = popcount_words (take ?p (buf_w w')) \<and>
                half1_w w' = popcount_words (drop ?p (buf_w w'))"
  proof (cases "s div 64 \<ge> p_w w")
    case True
    then have le: "?p \<le> ?i" using inv(3) by simp
    have t: "take ?p (buf_w w') = take ?p (buf_w w)"
      unfolding b' using le by simp
    have "drop ?p (buf_w w') = (drop ?p (buf_w w))[?i - ?p := ?v]"
      unfolding b' using le by (simp add: drop_update_swap)
    moreover have "?i - ?p < length (buf_w w) - ?p"
      using le i by (rule diff_less_mono[rotated])
    then have "popcount_words ((drop ?p (buf_w w))[?i - ?p := ?v])
        = popcount_words (drop ?p (buf_w w)) - popcnt64 (buf_w w ! ?i) + popcnt64 ?v"
      using le i by (subst popcount_words_update) simp_all
    ultimately have d: "popcount_words (drop ?p (buf_w w')) = half1_w w + op"
      unfolding pc inv(6) by simp
    have "half0_w w' = half0_w w" "half1_w w' = half1_w w + op"
      using u(8,9) True by simp_all
    then show ?thesis unfolding t d inv(5) by simp
  next
    case False
    then have lt: "?i < ?p" using u(2) inv(3) by simp
    have d: "drop ?p (buf_w w') = drop ?p (buf_w w)"
      unfolding b' using lt by simp
    have "take ?p (buf_w w') = (take ?p (buf_w w))[?i := ?v]"
      unfolding b' by (simp add: take_update_swap)
    moreover have "popcount_words ((take ?p (buf_w w))[?i := ?v])
        = popcount_words (take ?p (buf_w w)) - popcnt64 (buf_w w ! ?i) + popcnt64 ?v"
      using lt p by (subst popcount_words_update) simp_all
    ultimately have t: "popcount_words (take ?p (buf_w w')) = half0_w w + op"
      unfolding pc inv(5) by simp
    have "half0_w w' = half0_w w + op" "half1_w w' = half1_w w"
      using u(8,9) False by simp_all
    then show ?thesis unfolding t d inv(6) by simp
  qed
  show ?thesis
    unfolding Window_inv_def u(6,7) using inv(1,3,4) len halves
    by (simp add: u(6,7))
qed

lemma Window_update_test:
  assumes "Window_update w op s = Inr w'"
  shows "Window_test w' t \<longleftrightarrow> (if t = s then \<not> Window_test w s else Window_test w t)"
proof -
  note u = Window_update_Inr[OF assms]
  let ?i = "nat (s div 64)"
  have i: "?i < length (buf_w w)" using u(2,3) by simp
  have b: "bit (x XOR (2::64 word) ^ nat (s mod 64)) k \<longleftrightarrow> (bit x k \<noteq> (k = nat (s mod 64)))"
    for x k
    by (auto simp: bit_xor_iff bit_exp_iff possible_bit_word)
  show ?thesis
  proof (cases "t = s")
    case True
    then show ?thesis using u(2,3) i by (simp add: Window_test_def u(5) b)
  next
    case False
    show ?thesis
    proof (cases "0 \<le> t \<and> t div 64 < int (length (buf_w w))")
      case False
      then show ?thesis using \<open>t \<noteq> s\<close> by (auto simp: Window_test_def u(5))
    next
      case True
      show ?thesis
      proof (cases "t div 64 = s div 64")
        case d: True
        then have "t mod 64 \<noteq> s mod 64"
          using \<open>t \<noteq> s\<close> by (metis mult_div_mod_eq)
        then have "nat (t mod 64) \<noteq> nat (s mod 64)" by simp
        then show ?thesis
          using True d i \<open>t \<noteq> s\<close> by (simp add: Window_test_def u(5) b)
      next
        case d: False
        moreover have "0 \<le> t div 64" "0 \<le> s div 64"
          using True u(2) by linarith+
        ultimately have "nat (t div 64) \<noteq> ?i" by simp
        then show ?thesis
          using True \<open>t \<noteq> s\<close> by (simp add: Window_test_def u(5))
      qed
    qed
  qed
qed

lemma Window_clear_inv:
  assumes "1 \<le> words_w w"
  shows "Window_inv (Window_clear w)"
proof -
  have "words_w w sdiv 2 = words_w w div 2"
    using assms by (simp add: signed_divide_int_def sgn_if)
  then show ?thesis
    using assms by (simp add: Window_inv_def Window_clear_def)
qed

lemma Window_clear_test [simp]: "\<not> Window_test (Window_clear w) s"
proof
  assume "Window_test (Window_clear w) s"
  then have s: "0 \<le> s" "s div 64 < int (length (buf_w (Window_clear w)))"
    "bit (buf_w (Window_clear w) ! nat (s div 64)) (nat (s mod 64))"
    by (simp_all add: Window_test_def)
  have "0 \<le> s div 64" using s(1) by linarith
  with s(2) have "nat (s div 64) < nat (words_w w)"
    by (simp add: Window_clear_def split: if_splits)
  then have "buf_w (Window_clear w) ! nat (s div 64) = 0"
    by (simp add: Window_clear_def)
  with s(3) show False by simp
qed

lemma Window_new_words:
  assumes "Window_new bb = Inr w"
  shows "1 \<le> bb" and "words_w w = (bb + 63) div 64" and "1 \<le> words_w w"
proof -
  from assms show bb: "1 \<le> bb"
    by (auto simp: Window_new_def get_words_def split: if_splits sum.splits)
  then have "(bb + 64 - 1) sdiv 64 = (bb + 63) div 64"
    by (simp add: signed_divide_int_def sgn_if)
  with assms bb show "words_w w = (bb + 63) div 64"
    by (auto simp: Window_new_def get_words_def split: if_splits sum.splits)
  with bb show "1 \<le> words_w w" by linarith
qed

lemma find_down_step:
  assumes "Window_inv w" "0 < p_w w"
  shows "Window_inv (w\<lparr>p_w := p_w w - 1,
            half0_w := half0_w w - popcnt64 (buf_w w ! nat (p_w w - 1)),
            half1_w := half1_w w + popcnt64 (buf_w w ! nat (p_w w - 1))\<rparr>)"
proof -
  note inv = assms(1)[unfolded Window_inv_def]
  let ?p' = "p_w w - 1"
  have n: "nat (p_w w) = Suc (nat ?p')" using assms(2) by linarith
  have l: "nat ?p' < length (buf_w w)" using inv assms(2) by linarith
  have "take (nat (p_w w)) (buf_w w) = take (nat ?p') (buf_w w) @ [buf_w w ! nat ?p']"
    unfolding n using l by (rule take_Suc_conv_app_nth)
  moreover have "drop (nat ?p') (buf_w w) = buf_w w ! nat ?p' # drop (nat (p_w w)) (buf_w w)"
    unfolding n using l by (rule Cons_nth_drop_Suc[symmetric])
  ultimately show ?thesis
    using inv assms(2) by (simp add: Window_inv_def)
qed

lemma find_up_step:
  assumes "Window_inv w" "p_w w + 1 < int (length (buf_w w))"
  shows "Window_inv (w\<lparr>half0_w := half0_w w + popcnt64 (buf_w w ! nat (p_w w)),
            half1_w := half1_w w - popcnt64 (buf_w w ! nat (p_w w)),
            p_w := p_w w + 1\<rparr>)"
proof -
  note inv = assms(1)[unfolded Window_inv_def]
  let ?p = "nat (p_w w)"
  have l: "?p < length (buf_w w)" using inv by linarith
  have n: "nat (p_w w + 1) = Suc ?p" using inv by linarith
  have d: "drop ?p (buf_w w) = buf_w w ! ?p # drop (Suc ?p) (buf_w w)"
    using l by (rule Cons_nth_drop_Suc[symmetric])
  have t: "take (Suc ?p) (buf_w w) = take ?p (buf_w w) @ [buf_w w ! ?p]"
    using l by (rule take_Suc_conv_app_nth)
  have h1: "half1_w w = popcnt64 (buf_w w ! ?p) + popcount_words (drop (Suc ?p) (buf_w w))"
    using inv d by (metis popcount_words_simps(2))
  show ?thesis
    unfolding Window_inv_def using inv assms(2) h1 t n by simp
qed

lemma find_down_inv:
  assumes "find_down w goal = Inr w'" "Window_inv w"
  shows "Window_inv w' \<and> buf_w w' = buf_w w \<and> words_w w' = words_w w \<and> half0_w w' \<le> goal"
  using assms
proof (induction w goal rule: find_down.induct)
  case (1 w goal)
  show ?case
  proof (cases "half0_w w > goal")
    case False
    then have "w' = w" using "1.prems"(1) by (subst (asm) find_down.simps) simp
    then show ?thesis using "1.prems"(2) False by simp
  next
    case True
    let ?p' = "p_w w - 1"
    let ?c = "popcnt64 (buf_w w ! nat ?p')"
    let ?w' = "w\<lparr>p_w := ?p', half0_w := half0_w w - ?c, half1_w := half1_w w + ?c\<rparr>"
    from "1.prems"(1) True have r: "0 \<le> ?p' \<and> ?p' < int (length (buf_w w))"
      and f: "find_down ?w' goal = Inr w'"
      by (subst (asm) find_down.simps, simp add: Let_def split: if_splits)+
    have "Window_inv ?w'" using "1.prems"(2) r by (intro find_down_step) simp_all
    then show ?thesis using "1.IH"[OF True refl _ f] r by simp
  qed
qed

lemma find_down_total:
  assumes "Window_inv w" "0 \<le> goal"
  shows "\<exists>w'. find_down w goal = Inr w'"
  using assms
proof (induction w goal rule: find_down.induct)
  case (1 w goal)
  note inv = "1.prems"(1)[unfolded Window_inv_def]
  show ?case
  proof (cases "half0_w w > goal")
    case False
    then show ?thesis by (subst find_down.simps) simp
  next
    case True
    let ?p' = "p_w w - 1"
    let ?c = "popcnt64 (buf_w w ! nat ?p')"
    let ?w' = "w\<lparr>p_w := ?p', half0_w := half0_w w - ?c, half1_w := half1_w w + ?c\<rparr>"
    have "p_w w \<noteq> 0"
    proof
      assume "p_w w = 0"
      then have "half0_w w = 0" using inv by simp
      then show False using True "1.prems"(2) by simp
    qed
    then have p: "0 < p_w w" using inv by simp
    then have r: "0 \<le> ?p' \<and> ?p' < int (length (buf_w w))" using inv by simp
    have "Window_inv ?w'" using "1.prems"(1) p by (rule find_down_step)
    then obtain w'' where "find_down ?w' goal = Inr w''"
      using "1.IH"[OF True refl] r "1.prems"(2) by blast
    then show ?thesis using True r by (subst find_down.simps) (simp add: Let_def)
  qed
qed

lemma find_up_inv:
  assumes "find_up w goal = Inr w'" "Window_inv w"
  shows "Window_inv w' \<and> buf_w w' = buf_w w \<and> words_w w' = words_w w \<and>
         goal < half0_w w' + popcnt64 (buf_w w' ! nat (p_w w')) \<and>
         (half0_w w \<le> goal \<longrightarrow> half0_w w' \<le> goal)"
  using assms
proof (induction w goal rule: find_up.induct)
  case (1 w goal)
  note inv = "1.prems"(2)[unfolded Window_inv_def]
  let ?p = "nat (p_w w)"
  let ?c = "popcnt64 (buf_w w ! ?p)"
  let ?w' = "w\<lparr>half0_w := half0_w w + ?c, half1_w := half1_w w - ?c, p_w := p_w w + 1\<rparr>"
  have r: "0 \<le> p_w w \<and> p_w w < int (length (buf_w w))" using inv by simp
  show ?case
  proof (cases "half0_w w + ?c \<le> goal")
    case False
    then have "w' = w" using "1.prems"(1) r by (subst (asm) find_up.simps) simp
    then show ?thesis using "1.prems"(2) False by simp
  next
    case True
    then have f: "find_up ?w' goal = Inr w'"
      using "1.prems"(1) r by (subst (asm) find_up.simps) simp
    have pl: "p_w w + 1 < int (length (buf_w w))"
      using f by (subst (asm) find_up.simps) (auto split: if_splits)
    have "Window_inv ?w'" using "1.prems"(2) pl by (rule find_up_step)
    then show ?thesis using "1.IH"[OF _ True f] r True by auto
  qed
qed

lemma find_up_total:
  assumes "Window_inv w" "goal < Window_size w"
  shows "\<exists>w'. find_up w goal = Inr w'"
  using assms
proof (induction w goal rule: find_up.induct)
  case (1 w goal)
  note inv = "1.prems"(1)[unfolded Window_inv_def]
  let ?p = "nat (p_w w)"
  let ?c = "popcnt64 (buf_w w ! ?p)"
  let ?w' = "w\<lparr>half0_w := half0_w w + ?c, half1_w := half1_w w - ?c, p_w := p_w w + 1\<rparr>"
  have r: "0 \<le> p_w w \<and> p_w w < int (length (buf_w w))" using inv by simp
  then have l: "?p < length (buf_w w)" by linarith
  show ?case
  proof (cases "half0_w w + ?c \<le> goal")
    case False
    then show ?thesis using r by (subst find_up.simps) simp
  next
    case True
    have d: "drop ?p (buf_w w) = buf_w w ! ?p # drop (Suc ?p) (buf_w w)"
      using l by (rule Cons_nth_drop_Suc[symmetric])
    have h1: "half1_w w = ?c + popcount_words (drop (Suc ?p) (buf_w w))"
      using inv d by (metis popcount_words_simps(2))
    have "0 < popcount_words (drop (Suc ?p) (buf_w w))"
      using True "1.prems"(2) h1 by (simp add: Window_size_def)
    then have "drop (Suc ?p) (buf_w w) \<noteq> []" by auto
    then have "Suc ?p < length (buf_w w)" by simp
    then have pl: "p_w w + 1 < int (length (buf_w w))" using r by linarith
    have "Window_inv ?w'" using "1.prems"(1) pl by (rule find_up_step)
    moreover have "goal < Window_size ?w'"
      using "1.prems"(2) by (simp add: Window_size_def)
    ultimately obtain w'' where "find_up ?w' goal = Inr w''"
      using "1.IH"[of ] r True by blast
    then show ?thesis using True r by (subst find_up.simps) simp
  qed
qed

lemma bits_from_nth_word:
  assumes "p < length xs" "n < length (word_bits (xs ! p))"
  shows "bits_from 0 xs ! (nat (popcount_words (take p xs)) + n)
           = int (64 * p + word_bits (xs ! p) ! n)"
proof -
  have xs: "xs = take p xs @ (xs ! p # drop (Suc p) xs)"
    using assms(1) by (rule id_take_nth_drop)
  have lp: "length (take p xs) = p" using assms(1) by simp
  let ?A = "bits_from 0 (take p xs)"
  let ?B = "map (\<lambda>j. int (64 * p + j)) (word_bits (xs ! p))"
  let ?C = "bits_from (Suc p) (drop (Suc p) xs)"
  have "bits_from 0 xs = bits_from 0 (take p xs @ (xs ! p # drop (Suc p) xs))"
    using xs by simp
  also have "\<dots> = ?A @ ?B @ ?C"
    unfolding bits_from_append lp by simp
  finally have e: "bits_from 0 xs = ?A @ ?B @ ?C" .
  have la: "nat (popcount_words (take p xs)) = length ?A"
    using length_bits_from[of 0 "take p xs"] by simp
  show ?thesis
    unfolding e la using assms(2) by (simp add: nth_append)
qed

text \<open>What \<^verbatim>\<open>find\<close> does on a window that satisfies the invariant.\<close>

lemma Window_find_correct:
  assumes "Window_inv w" "0 \<le> goal" "goal < Window_size w"
  shows "\<exists>w' i. Window_find w goal = Inr (w', i) \<and> Window_inv w' \<and>
           buf_w w' = buf_w w \<and> words_w w' = words_w w \<and>
           Window_size w' = Window_size w \<and>
           i = Window_bits w ! nat goal"
proof -
  obtain wa where a1: "find_down w goal = Inr wa"
    using find_down_total[OF assms(1,2)] by blast
  have a: "find_down w goal = Inr wa" "Window_inv wa" "buf_w wa = buf_w w"
    "words_w wa = words_w w" "half0_w wa \<le> goal"
    using a1 find_down_inv[OF a1 assms(1)] by simp_all
  have sa: "Window_size wa = Window_size w"
    using a(2,3) assms(1) by (simp add: Window_inv_size)
  obtain wb where b1: "find_up wa goal = Inr wb"
    using find_up_total[OF a(2), of goal] assms(3) sa by auto
  have b: "find_up wa goal = Inr wb" "Window_inv wb" "buf_w wb = buf_w wa"
    "words_w wb = words_w wa" "half0_w wb \<le> goal"
    "goal < half0_w wb + popcnt64 (buf_w wb ! nat (p_w wb))"
    using b1 find_up_inv[OF b1 a(2)] a(5) by auto
  let ?p = "nat (p_w wb)"
  let ?x = "buf_w wb ! ?p"
  let ?n = "goal - half0_w wb"
  have n: "0 \<le> ?n" "?n < popcnt64 ?x" using b(5,6) by simp_all
  have invb: "0 \<le> p_w wb" "p_w wb < int (length (buf_w wb))"
    "half0_w wb = popcount_words (take ?p (buf_w wb))"
    using b(2) by (simp_all add: Window_inv_def)
  have j: "findnth64 ?x ?n = int (word_bits ?x ! nat ?n)"
    using n by (rule findnth64_word_bits)
  have nl: "nat ?n < length (word_bits ?x)"
    using n by (simp add: popcnt64_word_bits)
  then have j64: "word_bits ?x ! nat ?n < 64"
    by (rule word_bits_nth(2))
  have "push_bit 6 (p_w wb) OR findnth64 ?x ?n = 64 * p_w wb + findnth64 ?x ?n"
    unfolding j using j64 by (intro int_shift_or) simp_all
  also have "\<dots> = int (64 * ?p + word_bits ?x ! nat ?n)"
    unfolding j using invb(1) by simp
  also have "\<dots> = bits_from 0 (buf_w wb) ! (nat (popcount_words (take ?p (buf_w wb))) + nat ?n)"
    using invb(1,2) nl by (intro bits_from_nth_word[symmetric]) simp_all
  also have "nat (popcount_words (take ?p (buf_w wb))) + nat ?n = nat goal"
    using invb(3) n(1) b(5) popcount_words_nonneg[of "take ?p (buf_w wb)"] by linarith
  finally have i: "push_bit 6 (p_w wb) OR findnth64 ?x ?n = Window_bits w ! nat goal"
    by (simp add: Window_bits_def b(3) a(3))
  have "Window_find w goal = Inr (wb, push_bit 6 (p_w wb) OR findnth64 ?x ?n)"
    using a(1) b(1) n by (simp add: Window_find_def Let_def)
  moreover have "Window_size wb = Window_size w"
    using b(2,3) a(3) assms(1) by (simp add: Window_inv_size)
  ultimately show ?thesis
    using b(2,3,4) a(3,4) i by simp
qed

lemma Window_find_inv:
  assumes "Window_find w goal = Inr (w', i)" "Window_inv w"
  shows "Window_inv w' \<and> buf_w w' = buf_w w \<and> words_w w' = words_w w"
proof -
  from assms(1) obtain wa where a: "find_down w goal = Inr wa" "find_up wa goal = Inr w'"
    by (auto simp: Window_find_def Let_def split: sum.splits if_splits)
  show ?thesis
    using find_down_inv[OF a(1) assms(2)] find_up_inv[OF a(2)] by simp
qed

lemma Window_reachable_inv: "Window_reachable w \<Longrightarrow> Window_inv w"
proof (induction rule: Window_reachable.induct)
  case (init bb w)
  then show ?case using Window_new_words(3) by (intro Window_clear_inv)
next
  case (clear w)
  then show ?case by (intro Window_clear_inv) (simp add: Window_inv_def)
next
  case (update w op s w')
  then show ?case using Window_update_inv by blast
next
  case (find w goal w' i)
  then show ?case using Window_find_inv by blast
qed

lemma strict_sorted_card_below:
  fixes xs :: "int list"
  assumes "sorted_wrt (<) xs" "g < length xs"
  shows "card {s \<in> set xs. s < xs ! g} = g"
proof -
  have "{s \<in> set xs. s < xs ! g} = set (take g xs)"
  proof (intro set_eqI iffI)
    fix s assume "s \<in> {s \<in> set xs. s < xs ! g}"
    then obtain k where k: "k < length xs" "s = xs ! k" "xs ! k < xs ! g"
      by (auto simp: in_set_conv_nth)
    have "k < g"
    proof (rule ccontr)
      assume "\<not> k < g"
      then consider "k = g" | "g < k" by linarith
      then show False
      proof cases
        case 1
        then show ?thesis using k(3) by simp
      next
        case 2
        then have "xs ! g < xs ! k" using assms(1) k(1) by (simp add: sorted_wrt_nth_less)
        then show ?thesis using k(3) by simp
      qed
    qed
    then show "s \<in> set (take g xs)"
      using k(1,2) by (auto simp: in_set_conv_nth intro!: exI[of _ k])
  next
    fix s assume "s \<in> set (take g xs)"
    then obtain k where k: "k < g" "s = xs ! k"
      using assms(2) by (auto simp: in_set_conv_nth)
    then have "xs ! k < xs ! g" using assms by (simp add: sorted_wrt_nth_less)
    then show "s \<in> {s \<in> set xs. s < xs ! g}" using k assms(2) by simp
  qed
  moreover have "distinct (take g xs)"
    using assms(1) by (simp add: strict_sorted_iff)
  ultimately show ?thesis using assms(2) by (simp add: distinct_card)
qed

lemma Window_bits_nth:
  assumes "0 \<le> goal" "goal < popcount_words (buf_w w)"
  shows "Window_test w (Window_bits w ! nat goal)"
    and "int (card {s. s < Window_bits w ! nat goal \<and> Window_test w s}) = goal"
proof -
  have l: "nat goal < length (Window_bits w)"
    using assms length_Window_bits[of w] by linarith
  then have "Window_bits w ! nat goal \<in> set (Window_bits w)" by simp
  then show "Window_test w (Window_bits w ! nat goal)" by (simp add: set_Window_bits)
  have "{s. s < Window_bits w ! nat goal \<and> Window_test w s}
      = {s \<in> set (Window_bits w). s < Window_bits w ! nat goal}"
    by (auto simp: set_Window_bits)
  then show "int (card {s. s < Window_bits w ! nat goal \<and> Window_test w s}) = goal"
    using strict_sorted_card_below[OF sorted_Window_bits l] assms(1) by simp
qed

lemma findnth64_exact:
  assumes "0 \<le> n" "n < popcnt64 x"
  shows "findnth64 x n = int (word_bits x ! nat n)"
    and "findnth64_pdep x n = int (word_bits x ! nat n)"
    and "bit x (word_bits x ! nat n)"
    and "int (card {j. j < word_bits x ! nat n \<and> bit x j}) = n"
proof -
  have l: "nat n < length (word_bits x)"
    using assms by (simp add: popcnt64_word_bits)
  show "findnth64 x n = int (word_bits x ! nat n)"
    using assms by (rule findnth64_word_bits)
  show "findnth64_pdep x n = int (word_bits x ! nat n)"
    using assms by (rule findnth64_pdep_word_bits)
  show "bit x (word_bits x ! nat n)" using l by (rule word_bits_nth(1))
  show "int (card {j. j < word_bits x ! nat n \<and> bit x j}) = n"
    using word_bits_nth(3)[OF l] assms(1) by simp
qed

text \<open>
  Claim C6. On every window reachable by \<^verbatim>\<open>clear()\<close> and updates without fault, and for
  every goal with \<open>0 \<le> goal < size()\<close>, \<^verbatim>\<open>find(goal)\<close> returns the position of the
  \<open>(goal + 1)\<close>-th set bit of the buffer in ascending order: the returned position is in
  the window and exactly \<open>goal\<close> positions of the window lie strictly below it. The
  primitive \<^verbatim>\<open>findnth64\<close> is exact on both of its bodies: for \<open>0 \<le> n < popcnt64 x\<close>
  each returns the index of the \<open>(n + 1)\<close>-th set bit of \<open>x\<close>.
\<close>

theorem Window_find_nth_set_bit:
  assumes "Window_reachable w" "0 \<le> goal" "goal < Window_size w"
  shows "(\<exists>w' i. Window_find w goal = Inr (w', i) \<and>
            i = Window_bits w ! nat goal \<and>
            Window_test w i \<and>
            int (card {s. s < i \<and> Window_test w s}) = goal) \<and>
         (\<forall>x n. 0 \<le> n \<and> n < popcnt64 x \<longrightarrow>
            findnth64 x n = int (word_bits x ! nat n) \<and>
            findnth64_pdep x n = int (word_bits x ! nat n) \<and>
            bit x (word_bits x ! nat n) \<and>
            int (card {j. j < word_bits x ! nat n \<and> bit x j}) = n)"
proof -
  have inv: "Window_inv w" using assms(1) by (rule Window_reachable_inv)
  obtain w' i where f: "Window_find w goal = Inr (w', i)" "i = Window_bits w ! nat goal"
    using Window_find_correct[OF inv assms(2,3)] by blast
  have g: "goal < popcount_words (buf_w w)"
    using assms(3) inv by (simp add: Window_inv_size)
  have "Window_test w i" "int (card {s. s < i \<and> Window_test w s}) = goal"
    unfolding f(2) using Window_bits_nth[OF assms(2) g] by simp_all
  with f show ?thesis using findnth64_exact by blast
qed

lemma example_window2_reachable: "Window_reachable example_window2"
proof -
  let ?n = "\<lparr>words_w = 4, buf_w = [0, 0, 0, 0], half0_w = 0, half1_w = 0, p_w = 0\<rparr>"
  let ?c = "\<lparr>words_w = 4, buf_w = [0, 0, 0, 0], half0_w = 0, half1_w = 0, p_w = 2\<rparr>"
  let ?a = "\<lparr>words_w = 4, buf_w = [0, 64, 0, 0], half0_w = 1, half1_w = 0, p_w = 2\<rparr>"
  have "Window_new 200 = Inr ?n"
    by (simp add: Window_new_def get_words_def signed_divide_int_def numeral_eq_Suc)
  then have "Window_reachable (Window_clear ?n)" by (rule Window_reachable.init)
  moreover have "Window_clear ?n = ?c"
    by (simp add: Window_clear_def signed_divide_int_def numeral_eq_Suc)
  ultimately have c: "Window_reachable ?c" by simp
  have "Window_update ?c 1 70 = Inr ?a"
    by (simp add: Window_update_def int_shift_mask)
  with c have a: "Window_reachable ?a" by (rule Window_reachable.update)
  have "Window_update ?a 1 150 = Inr example_window2"
    by (simp add: Window_update_def int_shift_mask example_window2_def)
  with a show ?thesis by (rule Window_reachable.update)
qed

lemma example_window_reachable: "Window_reachable example_window"
proof -
  have "Window_update example_window2 1 3 = Inr example_window"
    by (simp add: Window_update_def int_shift_mask example_window_def example_window2_def)
  with example_window2_reachable show ?thesis by (rule Window_reachable.update)
qed

lemma example_window_bits: "Window_bits example_window = [3, 70, 150]"
  by code_simp

theorem Window_find_nth_set_bit_witness:
  "Window_reachable example_window \<and> (0::int) \<le> 1 \<and> 1 < Window_size example_window \<and>
   (\<exists>w'. Window_find example_window 1 = Inr (w', 70)) \<and>
   Window_test example_window 70 \<and>
   card {s. s < 70 \<and> Window_test example_window s} = 1 \<and>
   findnth64 13 2 = 3 \<and> findnth64_pdep 13 2 = 3"
proof -
  have r: "Window_reachable example_window" by (rule example_window_reachable)
  have g: "(0::int) \<le> 1" "1 < Window_size example_window"
    by (simp_all add: Window_size_def example_window_def)
  have p: "(0::int) \<le> 2 \<and> 2 < popcnt64 13" by code_simp
  have wb: "word_bits 13 ! 2 = 3" by code_simp
  note t = Window_find_nth_set_bit[OF r g]
  from t obtain w' i where "Window_find example_window 1 = Inr (w', i)"
    "i = Window_bits example_window ! nat 1" "Window_test example_window i"
    "int (card {s. s < i \<and> Window_test example_window s}) = 1"
    by blast
  moreover from t p have "findnth64 13 2 = int (word_bits 13 ! nat 2)"
    "findnth64_pdep 13 2 = int (word_bits 13 ! nat 2)"
    by blast+
  ultimately show ?thesis using r g by (simp add: example_window_bits wb)
qed

text \<open>
  Claim C9. On every reachable window and for every goal with \<open>0 \<le> goal < size()\<close>,
  \<^verbatim>\<open>find\<close> leaves the bit buffer and \<open>size() = half[0] + half[1]\<close> unchanged, and on
  return \<^verbatim>\<open>half[0]\<close> is the popcount of \<^verbatim>\<open>buf[0..p)\<close> and \<^verbatim>\<open>half[1]\<close> that of
  \<^verbatim>\<open>buf[p..words)\<close>, with the pivot \<open>p\<close> inside the buffer.
\<close>

theorem Window_find_frame:
  assumes "Window_reachable w" "0 \<le> goal" "goal < Window_size w"
  shows "\<exists>w' i. Window_find w goal = Inr (w', i) \<and>
           buf_w w' = buf_w w \<and> words_w w' = words_w w \<and>
           Window_size w' = Window_size w \<and>
           0 \<le> p_w w' \<and> p_w w' < words_w w' \<and> int (length (buf_w w')) = words_w w' \<and>
           half0_w w' = popcount_words (take (nat (p_w w')) (buf_w w')) \<and>
           half1_w w' = popcount_words (drop (nat (p_w w')) (buf_w w'))"
proof -
  have inv: "Window_inv w" using assms(1) by (rule Window_reachable_inv)
  obtain w' i where f: "Window_find w goal = Inr (w', i)" "Window_inv w'"
    "buf_w w' = buf_w w" "words_w w' = words_w w" "Window_size w' = Window_size w"
    using Window_find_correct[OF inv assms(2,3)] by blast
  show ?thesis
    using f(1,3,4,5) f(2)[unfolded Window_inv_def] by simp
qed

theorem Window_find_frame_witness:
  "Window_reachable example_window \<and> (0::int) \<le> 0 \<and> 0 < Window_size example_window \<and>
   (\<exists>w' i. Window_find example_window 0 = Inr (w', i) \<and>
      buf_w w' = [8, 64, 4194304, 0] \<and> Window_size w' = 3 \<and>
      half0_w w' = popcount_words (take (nat (p_w w')) (buf_w w')) \<and>
      half1_w w' = popcount_words (drop (nat (p_w w')) (buf_w w')))"
proof -
  have r: "Window_reachable example_window" by (rule example_window_reachable)
  have g: "(0::int) \<le> 0" "0 < Window_size example_window"
    by (simp_all add: Window_size_def example_window_def)
  have e: "buf_w example_window = [8, 64, 4194304, 0]" "Window_size example_window = 3"
    by (simp_all add: Window_size_def example_window_def)
  from Window_find_frame[OF r g] show ?thesis
    unfolding e using r g by auto
qed

lemma sdiv2_nonneg: "0 \<le> (a::int) \<Longrightarrow> a sdiv 2 = a div 2"
  by (simp add: signed_divide_int_def sgn_if)

lemma Window_inv_size_nonneg: "Window_inv w \<Longrightarrow> 0 \<le> Window_size w"
  by (simp add: Window_inv_size)

lemma Window_bits_find:
  assumes "Window_find w goal = Inr (w', i)" "Window_inv w"
  shows "Window_bits w' = Window_bits w"
  using Window_find_inv[OF assms] by (simp add: Window_bits_def)

lemma Window_find_monotone:
  assumes "Window_inv w" "0 \<le> g1" "g1 < g2" "g2 < Window_size w"
  shows "\<exists>wa med1 wb med2. Window_find w g1 = Inr (wa, med1) \<and>
           Window_find wa g2 = Inr (wb, med2) \<and> med2 > med1 \<and>
           med1 = Window_bits w ! nat g1 \<and> med2 = Window_bits w ! nat g2 \<and>
           Window_inv wb \<and> buf_w wb = buf_w w"
proof -
  obtain wa med1 where a: "Window_find w g1 = Inr (wa, med1)" "Window_inv wa"
    "buf_w wa = buf_w w" "Window_size wa = Window_size w" "med1 = Window_bits w ! nat g1"
    using Window_find_correct[OF assms(1,2)] assms(3,4) by force
  obtain wb med2 where b: "Window_find wa g2 = Inr (wb, med2)" "Window_inv wb"
    "buf_w wb = buf_w wa" "med2 = Window_bits wa ! nat g2"
    using Window_find_correct[OF a(2), of g2] assms(2,3,4) a(4) by force
  have e: "Window_bits wa = Window_bits w" using a(3) by (simp add: Window_bits_def)
  have "nat g2 < length (Window_bits w)"
    using assms length_Window_bits[of w] by (simp add: Window_inv_size)
  moreover have "nat g1 < nat g2" using assms(2,3) by simp
  ultimately have "Window_bits w ! nat g1 < Window_bits w ! nat g2"
    using sorted_Window_bits[of w] by (simp add: sorted_wrt_nth_less)
  then show ?thesis using a b e by simp
qed

lemma median_goals:
  assumes "0 < (tot::int)"
  shows "0 \<le> (tot - 1) sdiv 2" "(tot - 1) sdiv 2 < tot"
    "(tot - 0) sdiv 2 \<noteq> (tot - 1) sdiv 2 \<longleftrightarrow> even tot"
    "(tot - 0) sdiv 2 \<noteq> (tot - 1) sdiv 2 \<Longrightarrow>
       (tot - 1) sdiv 2 < (tot - 0) sdiv 2 \<and> (tot - 0) sdiv 2 < tot"
proof -
  have e: "(tot - 1) sdiv 2 = (tot - 1) div 2" "(tot - 0) sdiv 2 = tot div 2"
    using assms by (simp_all add: sdiv2_nonneg)
  show "0 \<le> (tot - 1) sdiv 2" "(tot - 1) sdiv 2 < tot"
    unfolding e using assms by linarith+
  show "(tot - 0) sdiv 2 \<noteq> (tot - 1) sdiv 2 \<longleftrightarrow> even tot"
    unfolding e by presburger
  show "(tot - 0) sdiv 2 \<noteq> (tot - 1) sdiv 2 \<Longrightarrow>
       (tot - 1) sdiv 2 < (tot - 0) sdiv 2 \<and> (tot - 0) sdiv 2 < tot"
    unfolding e using assms by linarith
qed

lemma get_med_no_assertion:
  assumes "Window_inv (window_wr wr)"
  shows "get_med avg wr \<noteq> Inl AssertionFailed"
proof (cases "Window_size (window_wr wr) = 0")
  case True
  then show ?thesis by (simp add: get_med_def)
next
  case False
  let ?w = "window_wr wr"
  let ?t = "Window_size ?w"
  let ?g1 = "(?t - 1) sdiv 2" and ?g2 = "(?t - 0) sdiv 2"
  have t: "0 < ?t" using False Window_inv_size_nonneg[OF assms] by linarith
  note g = median_goals[OF t]
  show ?thesis
  proof (cases "?g2 \<noteq> ?g1")
    case True
    then have "?g1 < ?g2" "?g2 < ?t" using g(4) by simp_all
    then obtain wa med1 wb med2 where
      "Window_find ?w ?g1 = Inr (wa, med1)" "Window_find wa ?g2 = Inr (wb, med2)" "med2 > med1"
      using Window_find_monotone[OF assms g(1)] by blast
    then show ?thesis using False True by (simp add: get_med_def Let_def)
  next
    case eq: False
    obtain wa med1 where "Window_find ?w ?g1 = Inr (wa, med1)"
      using Window_find_correct[OF assms g(1,2)] by blast
    then show ?thesis using False eq by (simp add: get_med_def Let_def)
  qed
qed

text \<open>
  Claim C10. On a reachable window \<^verbatim>\<open>find\<close> is strictly monotone in its goal: two
  successive calls with goals \<open>g1 < g2\<close> below the size return positions \<open>med1 < med2\<close>.
  In \<^verbatim>\<open>get_med\<close>, for a window of size \<open>n > 0\<close>, the two goals differ exactly when \<open>n\<close> is
  even, and then the second \<^verbatim>\<open>find\<close> returns a position strictly greater than the
  first: the assertion \<^verbatim>\<open>med2 > med1\<close> holds, and \<^verbatim>\<open>get_med\<close> never ends in a failed
  assertion.
\<close>

theorem get_med_assertion_holds:
  assumes "Window_reachable w"
  shows "(\<forall>g1 g2. 0 \<le> g1 \<and> g1 < g2 \<and> g2 < Window_size w \<longrightarrow>
            (\<exists>wa med1 wb med2. Window_find w g1 = Inr (wa, med1) \<and>
               Window_find wa g2 = Inr (wb, med2) \<and> med2 > med1)) \<and>
         (Window_size w \<noteq> 0 \<longrightarrow>
            (let total = Window_size w;
                 goal1 = (total - 1) sdiv 2;
                 goal2 = (total - 0) sdiv 2
             in (goal2 \<noteq> goal1 \<longleftrightarrow> even total) \<and>
                (goal2 \<noteq> goal1 \<longrightarrow>
                   (\<exists>wa med1 wb med2. Window_find w goal1 = Inr (wa, med1) \<and>
                      Window_find wa goal2 = Inr (wb, med2) \<and> med2 > med1)))) \<and>
         (\<forall>avg wr. window_wr wr = w \<longrightarrow> get_med avg wr \<noteq> Inl AssertionFailed)"
proof -
  have inv: "Window_inv w" using assms by (rule Window_reachable_inv)
  have mono: "\<exists>wa med1 wb med2. Window_find w g1 = Inr (wa, med1) \<and>
               Window_find wa g2 = Inr (wb, med2) \<and> med2 > med1"
    if "0 \<le> g1" "g1 < g2" "g2 < Window_size w" for g1 g2
    using Window_find_monotone[OF inv that] by blast
  have med: "(let total = Window_size w;
                 goal1 = (total - 1) sdiv 2;
                 goal2 = (total - 0) sdiv 2
             in (goal2 \<noteq> goal1 \<longleftrightarrow> even total) \<and>
                (goal2 \<noteq> goal1 \<longrightarrow>
                   (\<exists>wa med1 wb med2. Window_find w goal1 = Inr (wa, med1) \<and>
                      Window_find wa goal2 = Inr (wb, med2) \<and> med2 > med1)))"
    if "Window_size w \<noteq> 0"
  proof -
    have t: "0 < Window_size w" using that Window_inv_size_nonneg[OF inv] by linarith
    note g = median_goals[OF t]
    show ?thesis
      unfolding Let_def using g(3) g(4) mono[OF g(1)] by blast
  qed
  have "get_med avg wr \<noteq> Inl AssertionFailed" if "window_wr wr = w" for avg and wr :: "'a WindowRank"
    using get_med_no_assertion[of wr avg] inv that by simp
  with mono med show ?thesis by blast
qed

lemma example_window2_bits: "Window_bits example_window2 = [70, 150]"
  by code_simp

theorem get_med_assertion_holds_witness:
  "Window_reachable example_window2 \<and> Window_size example_window2 = 2 \<and>
   (\<exists>wa med1 wb med2. Window_find example_window2 ((2 - 1) sdiv 2) = Inr (wa, med1) \<and>
      Window_find wa ((2 - 0) sdiv 2) = Inr (wb, med2) \<and> med2 > med1)"
proof -
  have r: "Window_reachable example_window2" by (rule example_window2_reachable)
  have s: "Window_size example_window2 = 2"
    by (simp add: Window_size_def example_window2_def)
  have g: "((2::int) - 0) sdiv 2 \<noteq> (2 - 1) sdiv 2"
    by (simp add: signed_divide_int_def)
  from get_med_assertion_holds[OF r] have
    "Window_size example_window2 \<noteq> 0 \<longrightarrow>
       (let total = Window_size example_window2;
            goal1 = (total - 1) sdiv 2;
            goal2 = (total - 0) sdiv 2
        in (goal2 \<noteq> goal1 \<longleftrightarrow> even total) \<and>
           (goal2 \<noteq> goal1 \<longrightarrow>
              (\<exists>wa med1 wb med2. Window_find example_window2 goal1 = Inr (wa, med1) \<and>
                 Window_find wa goal2 = Inr (wb, med2) \<and> med2 > med1)))"
    by blast
  then show ?thesis
    unfolding s Let_def using r g by simp
qed

section \<open>Errors of the driver\<close>

text \<open>
  Claim C3, at the input \<open>X = 3\<close>, \<open>Y = 1\<close>, \<open>hx = 1\<close>, \<open>hy = 0\<close>, \<open>b_hint = 3\<close>: here
  \<open>2 hx + 1 = b\<close>, so the claim expects \<open>InvalidWindow\<close>. The guard of
  \<^verbatim>\<open>median_filter_impl_2d\<close> tests \<open>2 hx + 1 > b\<close> and lets the call through; the
  constructor of \<^verbatim>\<open>Dim\<close> then fails its own assertion \<open>2 h + 1 < b\<close>.
\<close>

theorem guard_admits_window_equal_to_block:
  "2 * (1::int) + 1 \<ge> 3 \<and>
   median_filter_2d False avg_rat heap 3 1 1 0 3 [Some 1, Some 2, Some 3] [None, None, None]
     = Aborted AssertionFailed \<and>
   median_filter_2d True avg_rat heap 3 1 1 0 3 [Some 1, Some 2, Some 3] [None, None, None]
     = Aborted AssertionFailed"
  by (simp add: median_filter_2d_def median_filter_impl_2d_def Dim_new_def Dim_asserts_def
      Dim_init_def calc_count_def calc_step_def int32_def)

text \<open>
  Claim C4, at the inputs \<open>X = 0\<close>, \<open>Y = 1\<close> and \<open>X = 1\<close>, \<open>Y = 0\<close> (radii \<open>0\<close>, default block
  size, empty buffers): the claim expects \<open>InvalidDim\<close> before any block is processed. The
  driver has no check of \<open>X\<close> and \<open>Y\<close>: it builds the grid (\<open>count = 1\<close> on the empty axis)
  and runs the block whose interior \<open>[b0, b1) = [0, 0)\<close> is empty. The snake traversal
  starts at \<open>b0\<close> and fails the assertion \<^verbatim>\<open>v < b1\<close> of \<^verbatim>\<open>BDim::w0\<close>; the naive traversal
  returns with nothing written.
\<close>

theorem empty_image_raises_nothing:
  "median_filter_2d False avg_rat (\<lambda>k n. True) 0 1 0 0 0 [] [] = Aborted AssertionFailed \<and>
   median_filter_2d True avg_rat (\<lambda>k n. True) 0 1 0 0 0 [] [] = Returned [] \<and>
   median_filter_2d False avg_rat (\<lambda>k n. True) 1 0 0 0 0 [] [] = Aborted AssertionFailed \<and>
   median_filter_2d True avg_rat (\<lambda>k n. True) 1 0 0 0 0 [] [] = Returned [] \<and>
   median_filter_2d False avg_rat (\<lambda>k n. True) 0 1 0 0 0 [] [] \<noteq> Raised InvalidDim [] \<and>
   median_filter_2d True avg_rat (\<lambda>k n. True) 0 1 0 0 0 [] [] \<noteq> Raised InvalidDim [] \<and>
   median_filter_2d False avg_rat (\<lambda>k n. True) 1 0 0 0 0 [] [] \<noteq> Raised InvalidDim [] \<and>
   median_filter_2d True avg_rat (\<lambda>k n. True) 1 0 0 0 0 [] [] \<noteq> Raised InvalidDim []"
  by code_simp

text \<open>
  Claim C1, at the input \<open>X = 2147483647\<close>, \<open>Y = 1\<close>, \<open>hx = hy = 0\<close>, default block size
  \<open>b = 8\<close>: the dimensions are positive, the radii not negative and \<open>2h + 1 < b\<close>, so the
  claim expects every output cell to hold the median of its window. The constructor of
  \<^verbatim>\<open>Dim\<close> for the \<open>x\<close> axis fails its assertion \<^verbatim>\<open>count >= 1\<close> (the overflow of claim C7),
  whatever the buffers, the traversal and the outcome of the allocations are; no output
  cell is written.
\<close>

theorem axis_near_INT_MAX_aborts:
  "(1::int) \<le> 2147483647 \<and> (0::int) \<le> 0 \<and>
   choose_blocksize_2d (max 0 0) = 8 \<and> 2 * (0::int) + 1 < 8 \<and>
   median_filter_2d naive avg heap 2147483647 1 0 0 0 inp outp = Aborted AssertionFailed"
  by (simp add: median_filter_2d_def median_filter_impl_2d_def Dim_new_def Dim_asserts_def
      Dim_init_def calc_count_def calc_step_def int32_def choose_blocksize_2d_def
      signed_divide_int_def Let_def)

section \<open>Loops\<close>

lemma iterate_append:
  "iterate (xs @ ys) f s = (case iterate xs f s of Inl e \<Rightarrow> Inl e | Inr t \<Rightarrow> iterate ys f t)"
  by (induction xs arbitrary: s) (auto split: sum.splits)

text \<open>A loop invariant indexed by the number of turns done.\<close>

lemma iterate_rule:
  assumes "I 0 s"
    and "\<And>j t. j < length xs \<Longrightarrow> I j t \<Longrightarrow> \<exists>t'. f (xs ! j) t = Inr t' \<and> I (Suc j) t'"
  shows "\<exists>s'. iterate xs f s = Inr s' \<and> I (length xs) s'"
proof -
  have "\<exists>s'. iterate (drop j xs) f t = Inr s' \<and> I (length xs) s'"
    if "j \<le> length xs" "I j t" for j t
    using that
  proof (induction "length xs - j" arbitrary: j t)
    case 0
    then show ?case by simp
  next
    case (Suc n)
    then have j: "j < length xs" by simp
    then obtain t' where t': "f (xs ! j) t = Inr t'" "I (Suc j) t'"
      using assms(2) Suc.prems(2) by blast
    have "\<exists>s'. iterate (drop (Suc j) xs) f t' = Inr s' \<and> I (length xs) s'"
      using Suc.hyps(1)[of "Suc j" t'] Suc.hyps(2) j t'(2) by simp
    moreover have "drop j xs = xs ! j # drop (Suc j) xs"
      using j by (rule Cons_nth_drop_Suc[symmetric])
    ultimately show ?case using t'(1) by simp
  qed
  from this[of 0 s] assms(1) show ?thesis by simp
qed

lemma for_range_conv: "for_range lo hi = map (\<lambda>j. lo + int j) [0..<nat (hi - lo)]"
proof -
  have "[lo..lo + int n - 1] = map (\<lambda>j. lo + int j) [0..<n]" for n
  proof (induction n)
    case 0
    show ?case by simp
  next
    case (Suc n)
    have "[lo..lo + int (Suc n) - 1] = [lo..lo + int n - 1] @ [lo + int n]"
      using upto_rec2[of lo "lo + int n"] by simp
    then show ?case using Suc by simp
  qed
  from this[of "nat (hi - lo)"] show ?thesis
    by (cases "lo \<le> hi") (simp_all add: for_range_def)
qed

lemma length_for_range [simp]: "length (for_range lo hi) = nat (hi - lo)"
  by (simp add: for_range_conv)

lemma nth_for_range [simp]: "j < nat (hi - lo) \<Longrightarrow> for_range lo hi ! j = lo + int j"
  by (simp add: for_range_conv)

lemma set_for_range [simp]: "set (for_range lo hi) = {lo..<hi}"
  by (auto simp: for_range_def)

lemma for_range_empty [simp]: "hi \<le> lo \<Longrightarrow> for_range lo hi = []"
  by (simp add: for_range_def)

text \<open>The rule for a \<^verbatim>\<open>for\<close> loop over \<open>[lo, hi)\<close>, with the invariant on the loop variable.\<close>

lemma for_range_rule:
  assumes "I lo s"
    and "\<And>v t. lo \<le> v \<Longrightarrow> v < hi \<Longrightarrow> I v t \<Longrightarrow> \<exists>t'. f v t = Inr t' \<and> I (v + 1) t'"
  shows "\<exists>s'. iterate (for_range lo hi) f s = Inr s' \<and> I (max lo hi) s'"
proof -
  let ?J = "\<lambda>j t. I (lo + int j) t"
  have "\<exists>s'. iterate (for_range lo hi) f s = Inr s' \<and> ?J (length (for_range lo hi)) s'"
  proof (rule iterate_rule)
    show "?J 0 s" using assms(1) by simp
  next
    fix j t assume j: "j < length (for_range lo hi)" and J: "?J j t"
    then have "lo \<le> lo + int j" "lo + int j < hi" by simp_all
    from assms(2)[OF this J] obtain t' where "f (lo + int j) t = Inr t'" "I (lo + int j + 1) t'"
      by blast
    moreover have "lo + int j + 1 = lo + int (Suc j)" by simp
    ultimately show "\<exists>t'. f (for_range lo hi ! j) t = Inr t' \<and> ?J (Suc j) t'"
      using j by (simp del: of_nat_Suc)
  qed
  moreover have "lo + int (length (for_range lo hi)) = max lo hi" by simp
  ultimately show ?thesis by simp
qed

section \<open>Feeding and ranking\<close>

lemma for_range_snoc: "lo \<le> k \<Longrightarrow> for_range lo (k + 1) = for_range lo k @ [k]"
  using upto_rec2[of lo k] by (simp add: for_range_def)

lemma fed_pairs_0 [simp]: "fed_pairs val 0 = []"
  by (simp add: fed_pairs_def)

lemma fed_pairs_step:
  "0 \<le> k \<Longrightarrow> fed_pairs val (k + 1)
     = fed_pairs val k @ (case val k of None \<Rightarrow> [] | Some a \<Rightarrow> [(a, k)])"
  by (simp add: fed_pairs_def for_range_snoc)

lemma set_fed_pairs:
  "set (fed_pairs val k) = {(a, s). 0 \<le> s \<and> s < k \<and> val s = Some a}"
  by (auto simp: fed_pairs_def split: option.splits)

lemma length_fed_pairs: "0 \<le> k \<Longrightarrow> int (length (fed_pairs val k)) \<le> k"
proof (induction k rule: int_ge_induct)
  case base
  show ?case by simp
next
  case (step k)
  then show ?case by (simp add: fed_pairs_step split: option.splits)
qed

lemma slots_fed_pairs: "0 \<le> k \<Longrightarrow> sorted_wrt (<) (map snd (fed_pairs val k))"
proof (induction k rule: int_ge_induct)
  case base
  show ?case by simp
next
  case (step k)
  have "\<forall>x\<in>set (fed_pairs val k). snd x < k"
    by (auto simp: set_fed_pairs)
  with step show ?case
    by (simp add: fed_pairs_step sorted_wrt_append split: option.splits)
qed

lemma distinct_fed_pairs: "0 \<le> k \<Longrightarrow> distinct (map snd (fed_pairs val k))"
  using slots_fed_pairs[of k val] by (simp add: strict_sorted_iff)

lemma init_start_fed:
  "fed val 0 (init_start wr)"
  by (simp add: fed_def init_start_def)

lemma init_feed_fed:
  assumes "fed val k wr" "length (rank_wr wr) = length (sorted_wr wr)"
    "k < int (length (rank_wr wr))"
  shows "\<exists>wr'. init_feed wr (val k) k = Inr wr' \<and> fed val (k + 1) wr' \<and>
           length (rank_wr wr') = length (rank_wr wr) \<and>
           length (sorted_wr wr') = length (sorted_wr wr) \<and>
           window_wr wr' = window_wr wr \<and> bb_wr wr' = bb_wr wr"
proof -
  note f = assms(1)[unfolded fed_def]
  let ?P = "fed_pairs val k"
  have k: "0 \<le> k" using f by simp
  have lp: "int (length ?P) \<le> k" using k by (rule length_fed_pairs)
  show ?thesis
  proof (cases "val k")
    case None
    let ?wr' = "wr\<lparr>rank_wr := (rank_wr wr)[nat k := NAN_MARKER]\<rparr>"
    have "init_feed wr (val k) k = Inr ?wr'"
      using None k assms(3) by (simp add: init_feed_def)
    moreover have "fed val (k + 1) ?wr'"
      unfolding fed_def using f None k assms(3)
      by (auto simp: fed_pairs_step nth_list_update)
    ultimately show ?thesis by simp
  next
    case (Some a)
    let ?wr' = "wr\<lparr>sorted_wr := (sorted_wr wr)[nat (size_wr wr) := (a, k)],
                   size_wr := size_wr wr + 1\<rparr>"
    have sz: "size_wr wr = int (length ?P)" using f by simp
    have lt: "length ?P < length (sorted_wr wr)"
      using lp assms(2,3) by linarith
    have i: "init_feed wr (val k) k = Inr ?wr'"
      using Some sz lt by (simp add: init_feed_def)
    have "take (Suc (length ?P)) ((sorted_wr wr)[length ?P := (a, k)]) = ?P @ [(a, k)]"
      using lt f by (simp add: take_Suc_conv_app_nth)
    moreover have "s < k" if "s \<le> k" "val s = None" for s
      using that Some by (cases "s = k") auto
    ultimately have "fed val (k + 1) ?wr'"
      unfolding fed_def using f Some k assms(3) sz
      by (simp add: fed_pairs_step)
    with i show ?thesis by simp
  qed
qed

lemma init_finish_ranked:
  fixes wr :: "'a::linorder WindowRank"
  assumes "fed val n wr" "length (rank_wr wr) = length (sorted_wr wr)"
  shows "\<exists>wr'. init_finish wr = Inr wr' \<and> ranked val n wr' \<and>
           length (rank_wr wr') = length (rank_wr wr) \<and>
           length (sorted_wr wr') = length (sorted_wr wr) \<and>
           window_wr wr' = window_wr wr \<and> bb_wr wr' = bb_wr wr"
proof -
  note f = assms(1)[unfolded fed_def]
  let ?P = "fed_pairs val n"
  let ?k = "length ?P"
  let ?sp = "sort ?P"
  let ?rest = "drop ?k (sorted_wr wr)"
  let ?wr1 = "wr\<lparr>sorted_wr := ?sp @ ?rest\<rparr>"
  have n: "0 \<le> n" "n \<le> int (length (rank_wr wr))" using f by simp_all
  have sz: "size_wr wr = int ?k" using f by simp
  have kn: "int ?k \<le> n" using n(1) by (rule length_fed_pairs)
  have kl: "?k \<le> length (sorted_wr wr)" using kn n(2) assms(2) by linarith
  have tk: "take ?k (sorted_wr wr) = ?P" using f by simp
  have fin: "init_finish wr = iterate (for_range 0 (int ?k)) set_rank ?wr1"
    using kl by (simp add: init_finish_def sz tk)
  have set_sp: "set ?sp = {(a, s). 0 \<le> s \<and> s < n \<and> val s = Some a}"
    by (simp add: set_fed_pairs)
  have dP: "distinct (map snd ?P)" using n(1) by (rule distinct_fed_pairs)
  then have "distinct ?P" "inj_on snd (set ?P)" by (simp_all add: distinct_map)
  then have dsp: "distinct ?sp" "inj_on snd (set ?sp)" by simp_all
  have nth_sp: "?sp ! i \<in> set ?sp" if "i < ?k" for i
    using that nth_mem[of i ?sp] by simp
  have slot_ok: "0 \<le> snd (?sp ! i) \<and> snd (?sp ! i) < n \<and>
      val (snd (?sp ! i)) = Some (fst (?sp ! i))" if "i < ?k" for i
    using nth_sp[OF that] unfolding set_sp by (simp add: case_prod_beta)
  have slot_neq: "snd (?sp ! i) \<noteq> snd (?sp ! j)" if "i < ?k" "j < ?k" "i \<noteq> j" for i j
  proof
    assume "snd (?sp ! i) = snd (?sp ! j)"
    then have "?sp ! i = ?sp ! j"
      using dsp(2) nth_sp that(1,2) by (auto dest: inj_onD)
    then show False using dsp(1) that by (simp add: nth_eq_iff_index_eq)
  qed
  let ?J = "\<lambda>v (t::'a WindowRank). sorted_wr t = ?sp @ ?rest \<and> length (rank_wr t) = length (rank_wr wr) \<and>
      size_wr t = int ?k \<and> window_wr t = window_wr wr \<and> bb_wr t = bb_wr wr \<and>
      (\<forall>i. i < nat v \<longrightarrow> rank_wr t ! nat (snd (?sp ! i)) = int i) \<and>
      (\<forall>s. 0 \<le> s \<and> s < n \<and> val s = None \<longrightarrow> rank_wr t ! nat s = NAN_MARKER)"
  have "\<exists>wr'. iterate (for_range 0 (int ?k)) set_rank ?wr1 = Inr wr' \<and> ?J (max 0 (int ?k)) wr'"
  proof (rule for_range_rule)
    show "?J 0 ?wr1" using f sz by simp
  next
    fix v t assume v: "0 \<le> v" "v < int ?k" and J: "?J v t"
    let ?slot = "snd (?sp ! nat v)"
    have vk: "nat v < ?k" using v by linarith
    have sv: "sorted_wr t ! nat v = ?sp ! nat v" using J vk by (simp add: nth_append)
    have slot: "0 \<le> ?slot" "?slot < n" "val ?slot = Some (fst (?sp ! nat v))"
      using slot_ok[OF vk] by simp_all
    then have sl: "nat ?slot < length (rank_wr t)" using n(2) J by linarith
    let ?t' = "t\<lparr>rank_wr := (rank_wr t)[nat ?slot := v]\<rparr>"
    have lv: "v < int (length (sorted_wr t))" using J v kl by simp
    have "set_rank v t = Inr ?t'"
      using v(1) lv sv slot(1) sl by (simp add: set_rank_def Let_def)
    moreover have "?J (v + 1) ?t'"
    proof -
      have 1: "rank_wr ?t' ! nat (snd (?sp ! i)) = int i" if "i < nat (v + 1)" for i
      proof (cases "i = nat v")
        case True
        then show ?thesis using sl v(1) by simp
      next
        case False
        then have iv: "i < nat v" using that v(1) by linarith
        then have "snd (?sp ! i) \<noteq> ?slot" using slot_neq[of i "nat v"] vk by simp
        moreover have "0 \<le> snd (?sp ! i)"
          using slot_ok[of i] iv vk by simp
        ultimately have "nat (snd (?sp ! i)) \<noteq> nat ?slot" using slot(1) by simp
        then show ?thesis using J iv by simp
      qed
      have 2: "rank_wr ?t' ! nat s = NAN_MARKER" if "0 \<le> s" "s < n" "val s = None" for s
      proof -
        have "s \<noteq> ?slot" using that(3) slot(3) by auto
        then have "nat s \<noteq> nat ?slot" using that(1) slot(1) by simp
        then show ?thesis using J that by simp
      qed
      show ?thesis using J 1 2 by simp
    qed
    ultimately show "\<exists>t'. set_rank v t = Inr t' \<and> ?J (v + 1) t'" by blast
  qed
  then obtain wr' where w: "init_finish wr = Inr wr'" and J: "?J (int ?k) wr'"
    unfolding fin by auto
  have tk': "take (nat (size_wr wr')) (sorted_wr wr') = ?sp" using J by simp
  have "sorted_wrt (<) ?sp" using dsp(1) by (simp add: strict_sorted_iff)
  moreover have "0 \<le> rank_wr wr' ! nat s \<and> rank_wr wr' ! nat s < size_wr wr' \<and>
      sorted_wr wr' ! nat (rank_wr wr' ! nat s) = (a, s)"
    if "0 \<le> s" "s < n" "val s = Some a" for s a
  proof -
    have "(a, s) \<in> set ?sp" using that by (simp add: set_fed_pairs)
    then obtain i where i: "i < ?k" "?sp ! i = (a, s)"
      by (metis in_set_conv_nth length_sort)
    then have "rank_wr wr' ! nat s = int i" using J by (metis nat_int snd_conv)
    then show ?thesis using i J by (simp add: nth_append)
  qed
  ultimately have r: "ranked val n wr'"
    unfolding ranked_def using J n kl tk' assms(2)
    by (auto split: option.splits)
  have "length (sorted_wr wr') = length (sorted_wr wr)"
    using J kl by simp
  then show ?thesis using w J r by simp
qed

section \<open>Updates of the window by slot\<close>

lemma Window_update_ok:
  assumes "op = 1 \<or> op = -1" "0 \<le> r" "r div 64 < int (length (buf_w w))"
    "op = 1 \<longleftrightarrow> \<not> Window_test w r"
  shows "\<exists>w'. Window_update w op r = Inr w'"
proof -
  let ?cur = "buf_w w ! nat (r div 64)"
  have nz: "?cur AND 2 ^ nat (r mod 64) \<noteq> 0 \<longleftrightarrow> bit ?cur (nat (r mod 64))"
    by (simp add: and_exp_eq_0_iff_not_bit)
  have t: "Window_test w r \<longleftrightarrow> bit ?cur (nat (r mod 64))"
    using assms(2,3) by (simp add: Window_test_def)
  have i: "0 \<le> r div 64" using assms(2) by linarith
  show ?thesis
    using assms(1,3,4) i unfolding t
    by (auto simp: Window_update_def int_shift_mask Let_def nz)
qed

lemma ranked_Some:
  assumes "ranked val n wr" "0 \<le> s" "s < n" "val s = Some a"
  shows "0 \<le> rank_wr wr ! nat s" "rank_wr wr ! nat s < size_wr wr"
    "sorted_wr wr ! nat (rank_wr wr ! nat s) = (a, s)"
proof -
  have "\<forall>s. 0 \<le> s \<and> s < n \<longrightarrow>
        (case val s of
           None \<Rightarrow> rank_wr wr ! nat s = NAN_MARKER
         | Some a \<Rightarrow> 0 \<le> rank_wr wr ! nat s \<and> rank_wr wr ! nat s < size_wr wr \<and>
                     sorted_wr wr ! nat (rank_wr wr ! nat s) = (a, s))"
    using assms(1) unfolding ranked_def by blast
  then have "case val s of
           None \<Rightarrow> rank_wr wr ! nat s = NAN_MARKER
         | Some a \<Rightarrow> 0 \<le> rank_wr wr ! nat s \<and> rank_wr wr ! nat s < size_wr wr \<and>
                     sorted_wr wr ! nat (rank_wr wr ! nat s) = (a, s)"
    using assms(2,3) by blast
  then show "0 \<le> rank_wr wr ! nat s" "rank_wr wr ! nat s < size_wr wr"
    "sorted_wr wr ! nat (rank_wr wr ! nat s) = (a, s)"
    by (simp_all add: assms(4))
qed

lemma ranked_None:
  assumes "ranked val n wr" "0 \<le> s" "s < n" "val s = None"
  shows "rank_wr wr ! nat s = NAN_MARKER"
proof -
  have "\<forall>s. 0 \<le> s \<and> s < n \<longrightarrow>
        (case val s of
           None \<Rightarrow> rank_wr wr ! nat s = NAN_MARKER
         | Some a \<Rightarrow> 0 \<le> rank_wr wr ! nat s \<and> rank_wr wr ! nat s < size_wr wr \<and>
                     sorted_wr wr ! nat (rank_wr wr ! nat s) = (a, s))"
    using assms(1) unfolding ranked_def by blast
  then have "case val s of
           None \<Rightarrow> rank_wr wr ! nat s = NAN_MARKER
         | Some a \<Rightarrow> 0 \<le> rank_wr wr ! nat s \<and> rank_wr wr ! nat s < size_wr wr \<and>
                     sorted_wr wr ! nat (rank_wr wr ! nat s) = (a, s)"
    using assms(2,3) by blast
  then show ?thesis by (simp add: assms(4))
qed

lemma ranked_inj:
  assumes "ranked val n wr" "0 \<le> s" "s < n" "0 \<le> s'" "s' < n"
    "val s \<noteq> None" "val s' \<noteq> None" "rank_wr wr ! nat s = rank_wr wr ! nat s'"
  shows "s = s'"
proof -
  from assms(6,7) obtain a a' where v: "val s = Some a" "val s' = Some a'" by auto
  have "sorted_wr wr ! nat (rank_wr wr ! nat s) = (a, s)"
    using ranked_Some(3)[OF assms(1,2,3) v(1)] .
  moreover have "sorted_wr wr ! nat (rank_wr wr ! nat s') = (a', s')"
    using ranked_Some(3)[OF assms(1,4,5) v(2)] .
  ultimately have "(a, s) = (a', s')" unfolding assms(8) by (rule trans[OF sym])
  then show ?thesis by (rule Pair_inject)
qed

lemma ranked_cong:
  assumes "rank_wr wr' = rank_wr wr" "sorted_wr wr' = sorted_wr wr" "size_wr wr' = size_wr wr"
  shows "ranked val n wr' = ranked val n wr"
  unfolding ranked_def assms ..

lemma WR_inv_clear:
  assumes "WR_cap wr" "ranked val n wr"
  shows "WR_inv val n {} (WindowRank_clear wr)"
proof -
  have "Window_inv (Window_clear (window_wr wr))"
    using assms(1) by (intro Window_clear_inv) (simp add: WR_cap_def)
  moreover have "WR_cap (WindowRank_clear wr)"
    using assms(1) by (simp add: WR_cap_def WindowRank_clear_def Window_clear_def)
  moreover have "ranked val n (WindowRank_clear wr)"
    using assms(2) by (subst ranked_cong[of _ wr]) (simp_all add: WindowRank_clear_def)
  ultimately show ?thesis
    by (simp add: WR_inv_def WindowRank_clear_def)
qed

lemma WR_update:
  assumes inv: "WR_inv val n S wr" and s: "0 \<le> s" "s < n"
    and op: "(op = 1 \<and> s \<notin> S) \<or> (op = -1 \<and> s \<in> S)"
  shows "\<exists>wr'. WindowRank_update wr op s = Inr wr' \<and>
           WR_inv val n (if op = 1 then insert s S else S - {s}) wr'"
proof -
  let ?w = "window_wr wr"
  let ?S' = "if op = 1 then insert s S else S - {s}"
  have cap: "WR_cap wr" and winv: "Window_inv ?w" and rk: "ranked val n wr"
    and sub: "S \<subseteq> {0..<n}"
    and tst: "\<And>t. Window_test ?w t \<longleftrightarrow> (\<exists>s\<in>S. val s \<noteq> None \<and> rank_wr wr ! nat s = t)"
    using inv by (simp_all add: WR_inv_def)
  have sl: "s < int (length (rank_wr wr))" using s rk by (simp add: ranked_def)
  have sub': "?S' \<subseteq> {0..<n}" using sub s by auto
  show ?thesis
  proof (cases "val s")
    case None
    then have "rank_wr wr ! nat s = NAN_MARKER" using ranked_None[OF rk s] by simp
    then have u: "WindowRank_update wr op s = Inr wr"
      using s sl by (simp add: WindowRank_update_def)
    have "(\<exists>s'\<in>?S'. val s' \<noteq> None \<and> rank_wr wr ! nat s' = t)
        \<longleftrightarrow> (\<exists>s'\<in>S. val s' \<noteq> None \<and> rank_wr wr ! nat s' = t)" for t
      using None by auto
    then have "WR_inv val n ?S' wr"
      unfolding WR_inv_def using cap winv rk sub' tst by simp
    with u show ?thesis by simp
  next
    case (Some a)
    let ?r = "rank_wr wr ! nat s"
    note r = ranked_Some[OF rk s Some]
    have rsz: "size_wr wr \<le> int (length (sorted_wr wr))" using rk by (simp add: ranked_def)
    have "?r < 64 * int (length (buf_w ?w))"
      using r(2) rsz cap by (simp add: WR_cap_def)
    then have rd: "?r div 64 < int (length (buf_w ?w))" by linarith
    have uniq: "s' = s" if "s' \<in> S" "val s' \<noteq> None" "rank_wr wr ! nat s' = ?r" for s'
    proof -
      have "0 \<le> s'" "s' < n" using that(1) sub by auto
      then show ?thesis using ranked_inj[OF rk _ _ s] that Some by simp
    qed
    have t: "Window_test ?w ?r \<longleftrightarrow> s \<in> S"
      unfolding tst using uniq Some by auto
    have "op = 1 \<or> op = -1" using op by auto
    moreover have "op = 1 \<longleftrightarrow> \<not> Window_test ?w ?r" unfolding t using op by auto
    ultimately obtain w' where w': "Window_update ?w op ?r = Inr w'"
      using Window_update_ok[OF _ r(1) rd] by blast
    let ?wr' = "wr\<lparr>window_wr := w'\<rparr>"
    have u: "WindowRank_update wr op s = Inr ?wr'"
      using s sl r(1) w' by (simp add: WindowRank_update_def Let_def)
    note ui = Window_update_Inr[OF w']
    have "length (buf_w w') = length (buf_w ?w)" using ui(5) by simp
    then have cap': "WR_cap ?wr'" using cap ui(6) by (simp add: WR_cap_def)
    have winv': "Window_inv w'" using w' winv by (rule Window_update_inv)
    have rk': "ranked val n ?wr'" using rk by (subst ranked_cong[of _ wr]) simp_all
    have tst': "Window_test w' t \<longleftrightarrow> (\<exists>s'\<in>?S'. val s' \<noteq> None \<and> rank_wr wr ! nat s' = t)" for t
    proof (cases "t = ?r")
      case True
      have "Window_test w' t \<longleftrightarrow> s \<notin> S"
        unfolding Window_update_test[OF w'] using True t by simp
      moreover have "(\<exists>s'\<in>?S'. val s' \<noteq> None \<and> rank_wr wr ! nat s' = t) \<longleftrightarrow> op = 1"
        using True uniq Some op by auto
      ultimately show ?thesis using op by auto
    next
      case False
      have "Window_test w' t \<longleftrightarrow> (\<exists>s'\<in>S. val s' \<noteq> None \<and> rank_wr wr ! nat s' = t)"
        unfolding Window_update_test[OF w'] using False tst by simp
      also have "\<dots> \<longleftrightarrow> (\<exists>s'\<in>?S'. val s' \<noteq> None \<and> rank_wr wr ! nat s' = t)"
        using False by auto
      finally show ?thesis .
    qed
    have "WR_inv val n ?S' ?wr'"
      unfolding WR_inv_def using cap' winv' rk' sub' tst' by simp
    with u show ?thesis by blast
  qed
qed

lemma median_of_mset:
  "mset xs = mset ys \<Longrightarrow> median_of avg xs = median_of avg ys"
proof -
  assume "mset xs = mset ys"
  then have "mset (map the (filter (\<lambda>x. x \<noteq> None) xs)) = mset (map the (filter (\<lambda>x. x \<noteq> None) ys))"
    by simp
  then have "sort (map the (filter (\<lambda>x. x \<noteq> None) xs)) = sort (map the (filter (\<lambda>x. x \<noteq> None) ys))"
    by (metis properties_for_sort sorted_sort mset_sort)
  then show ?thesis by (simp add: median_of_def)
qed

text \<open>The samples of the window, in the order of their ranks.\<close>

lemma WR_window_values:
  fixes wr :: "'a::linorder WindowRank"
  assumes inv: "WR_inv val n S wr" and cells: "distinct cells" "set cells = S"
  defines "B \<equiv> Window_bits (window_wr wr)"
  shows "sort (map the (filter (\<lambda>x. x \<noteq> None) (map val cells)))
           = map (\<lambda>t. fst (sorted_wr wr ! nat t)) B"
    and "\<forall>t\<in>set B. 0 \<le> t \<and> t < size_wr wr"
    and "int (length B) = Window_size (window_wr wr)"
    and "int (card {s \<in> S. val s \<noteq> None}) = Window_size (window_wr wr)"
proof -
  let ?w = "window_wr wr"
  let ?r = "\<lambda>s. rank_wr wr ! nat s"
  let ?g = "\<lambda>t. fst (sorted_wr wr ! nat t)"
  let ?S' = "{s \<in> S. val s \<noteq> None}"
  have cap: "WR_cap wr" and winv: "Window_inv ?w" and rk: "ranked val n wr"
    and sub: "S \<subseteq> {0..<n}"
    and tst: "\<And>t. Window_test ?w t \<longleftrightarrow> (\<exists>s\<in>S. val s \<noteq> None \<and> rank_wr wr ! nat s = t)"
    using inv by (simp_all add: WR_inv_def)
  have finS: "finite S" using sub finite_subset by blast
  have setB: "set B = ?r ` ?S'"
    unfolding B_def set_Window_bits using tst by auto
  have sB: "sorted_wrt (<) B" unfolding B_def by (rule sorted_Window_bits)
  then have dB: "distinct B" by (simp add: strict_sorted_iff)
  have inS: "0 \<le> s \<and> s < n" if "s \<in> ?S'" for s using that sub by auto
  have rS: "0 \<le> ?r s \<and> ?r s < size_wr wr \<and> sorted_wr wr ! nat (?r s) = (the (val s), s)"
    if "s \<in> ?S'" for s
  proof -
    from that obtain a where a: "val s = Some a" by auto
    show ?thesis using ranked_Some[OF rk _ _ a] inS[OF that] a by simp
  qed
  show bnd: "\<forall>t\<in>set B. 0 \<le> t \<and> t < size_wr wr"
    unfolding setB using rS by auto
  show lB: "int (length B) = Window_size ?w"
    unfolding B_def using winv by (simp add: length_Window_bits Window_inv_size)
  have inj: "inj_on ?r ?S'"
  proof (rule inj_onI)
    fix s s' assume a: "s \<in> ?S'" "s' \<in> ?S'" "?r s = ?r s'"
    show "s = s'"
      using ranked_inj[OF rk _ _ _ _ _ _ a(3)] inS[OF a(1)] inS[OF a(2)] a(1,2) by simp
  qed
  have "card ?S' = card (set B)" unfolding setB using inj by (simp add: card_image)
  also have "\<dots> = length B" using dB by (rule distinct_card)
  finally show "int (card ?S') = Window_size ?w" using lB by simp
  have "mset B = mset_set (set B)" using dB by (simp add: mset_set_set)
  also have "\<dots> = image_mset ?r (mset_set ?S')"
    unfolding setB using inj by (simp add: image_mset_mset_set)
  finally have mB: "mset B = image_mset ?r (mset_set ?S')" .
  have "mset (map ?g B) = image_mset ?g (image_mset ?r (mset_set ?S'))"
    by (simp add: mB)
  also have "\<dots> = image_mset (\<lambda>s. ?g (?r s)) (mset_set ?S')"
    by (simp add: multiset.map_comp comp_def)
  also have "\<dots> = image_mset (\<lambda>s. the (val s)) (mset_set ?S')"
  proof (rule image_mset_cong)
    fix s assume "s \<in># mset_set ?S'"
    then have "s \<in> ?S'" using finS by simp
    then show "?g (?r s) = the (val s)" using rS by simp
  qed
  finally have m1: "mset (map ?g B) = image_mset (\<lambda>s. the (val s)) (mset_set ?S')" .
  have "filter (\<lambda>x. x \<noteq> None) (map val cells) = map val (filter (\<lambda>s. val s \<noteq> None) cells)"
    by (simp add: filter_map comp_def)
  then have "mset (map the (filter (\<lambda>x. x \<noteq> None) (map val cells)))
      = image_mset (\<lambda>s. the (val s)) (filter_mset (\<lambda>s. val s \<noteq> None) (mset cells))"
    by (simp add: multiset.map_comp comp_def)
  also have "mset cells = mset_set S" using cells by (simp add: mset_set_set[symmetric])
  also have "filter_mset (\<lambda>s. val s \<noteq> None) (mset_set S) = mset_set ?S'"
    using finS by simp
  finally have m2: "mset (map the (filter (\<lambda>x. x \<noteq> None) (map val cells)))
      = image_mset (\<lambda>s. the (val s)) (mset_set ?S')" .
  have srt: "sorted_wrt (<) (take (nat (size_wr wr)) (sorted_wr wr))"
    and szl: "size_wr wr \<le> int (length (sorted_wr wr))"
    using rk by (simp_all add: ranked_def)
  have mono: "?g t \<le> ?g u" if "t \<in> set B" "u \<in> set B" "t < u" for t u
  proof -
    have b: "0 \<le> t" "t < size_wr wr" "0 \<le> u" "u < size_wr wr" using bnd that by auto
    let ?T = "take (nat (size_wr wr)) (sorted_wr wr)"
    have lT: "length ?T = nat (size_wr wr)" using szl by simp
    have tu: "nat t < nat u" using b that(3) by linarith
    have uT: "nat u < length ?T" unfolding lT using b by linarith
    have "?T ! nat t < ?T ! nat u" using srt tu uT by (rule sorted_wrt_nth_less)
    moreover have "nat t < nat (size_wr wr)" "nat u < nat (size_wr wr)" using b by linarith+
    ultimately have "sorted_wr wr ! nat t < sorted_wr wr ! nat u" by simp
    then show ?thesis by (auto simp: less_prod_def' prod_eq_iff)
  qed
  have "sorted_wrt (\<lambda>t u. ?g t \<le> ?g u) B"
    using sB by (rule sorted_wrt_mono_rel[rotated]) (rule mono)
  then have "sorted (map ?g B)" by (simp add: sorted_wrt_map)
  then show "sort (map the (filter (\<lambda>x. x \<noteq> None) (map val cells))) = map ?g B"
    using m1 m2 by (intro properties_for_sort) simp_all
qed

lemma WR_inv_window:
  assumes "WR_inv val n S wr" "Window_inv w'" "buf_w w' = buf_w (window_wr wr)"
    "words_w w' = words_w (window_wr wr)"
  shows "WR_inv val n S (wr\<lparr>window_wr := w'\<rparr>)"
proof -
  have "Window_test w' t = Window_test (window_wr wr) t" for t
    by (simp add: Window_test_def assms(3))
  moreover have "ranked val n (wr\<lparr>window_wr := w'\<rparr>) = ranked val n wr"
    by (rule ranked_cong) simp_all
  ultimately show ?thesis
    using assms unfolding WR_inv_def WR_cap_def by simp
qed

lemma nat_median_goals:
  assumes "0 < L"
  shows "(int L - 1) sdiv 2 = int ((L - 1) div 2)" "(int L - 0) sdiv 2 = int (L div 2)"
proof -
  have "(int L - 1) sdiv 2 = (int L - 1) div 2" "(int L - 0) sdiv 2 = int L div 2"
    using assms by (simp_all add: sdiv2_nonneg)
  moreover have "(int L - 1) div 2 = int ((L - 1) div 2)"
    using assms by (simp add: zdiv_int of_nat_diff)
  moreover have "int L div 2 = int (L div 2)" by (simp add: zdiv_int)
  ultimately show "(int L - 1) sdiv 2 = int ((L - 1) div 2)" "(int L - 0) sdiv 2 = int (L div 2)"
    by simp_all
qed

lemma nat_median_index: "0 < (L::nat) \<Longrightarrow> (L - 1) div 2 < L \<and> L div 2 < L"
  by linarith

text \<open>
  \<^verbatim>\<open>get_med\<close> on a ranked block whose window holds the slots \<open>S\<close>: the result is the
  median of the samples of these slots.
\<close>

lemma get_med_median:
  fixes wr :: "'a::linorder WindowRank"
  assumes inv: "WR_inv val n S wr" and cells: "distinct cells" "set cells = S"
  shows "\<exists>w'. get_med avg wr = Inr (wr\<lparr>window_wr := w'\<rparr>, median_of avg (map val cells)) \<and>
           WR_inv val n S (wr\<lparr>window_wr := w'\<rparr>) \<and> buf_w w' = buf_w (window_wr wr)"
proof -
  let ?w = "window_wr wr"
  let ?B = "Window_bits ?w"
  let ?g = "\<lambda>t. fst (sorted_wr wr ! nat t)"
  let ?ys = "sort (map the (filter (\<lambda>x. x \<noteq> None) (map val cells)))"
  let ?L = "length ?B"
  note wv = WR_window_values[OF inv cells]
  have ys: "?ys = map ?g ?B" by (rule wv(1))
  have ly: "length ?ys = ?L" using arg_cong[OF ys, of length] by (simp del: length_sort)
  have tot: "Window_size ?w = int ?L" using wv(3) by simp
  have winv: "Window_inv ?w" and rk: "ranked val n wr"
    using inv by (simp_all add: WR_inv_def)
  have szl: "size_wr wr \<le> int (length (sorted_wr wr))" using rk by (simp add: ranked_def)
  have bnd: "0 \<le> ?B ! i \<and> ?B ! i < int (length (sorted_wr wr))" if "i < ?L" for i
    using wv(2) nth_mem[OF that] szl by fastforce
  have med: "median_of avg (map val cells) =
      (if ?L = 0 then None
       else if (?L - 1) div 2 = ?L div 2 then Some (?g (?B ! ((?L - 1) div 2)))
       else avg (?g (?B ! ((?L - 1) div 2))) (?g (?B ! (?L div 2))))"
  proof (cases "?L = 0")
    case True
    then show ?thesis using ly by (simp add: median_of_def del: length_sort)
  next
    case False
    then have "0 < ?L" by (rule neq0_conv[THEN iffD1])
    then have "(?L - 1) div 2 < ?L" "?L div 2 < ?L"
      using nat_median_index[of ?L] by blast+
    then have "?ys ! ((?L - 1) div 2) = ?g (?B ! ((?L - 1) div 2))"
      "?ys ! (?L div 2) = ?g (?B ! (?L div 2))"
      unfolding ys by simp_all
    then show ?thesis
      unfolding median_of_def Let_def ly using False by simp
  qed
  show ?thesis
  proof (cases "?L = 0")
    case True
    then have "get_med avg wr = Inr (wr, None)"
      by (simp add: get_med_def tot)
    moreover have "wr\<lparr>window_wr := ?w\<rparr> = wr" by simp
    ultimately show ?thesis
      using True med inv by (intro exI[of _ ?w]) simp
  next
    case False
    then have L: "0 < ?L" by (rule neq0_conv[THEN iffD1])
    let ?g1 = "(int ?L - 1) sdiv 2" and ?g2 = "(int ?L - 0) sdiv 2"
    note ng = nat_median_goals[OF L]
    have t0: "0 < int ?L" using L by simp
    note mg = median_goals[OF t0]
    have sz: "Window_size ?w \<noteq> 0" using tot L by simp
    show ?thesis
    proof (cases "?g2 \<noteq> ?g1")
      case True
      then have lt: "?g1 < ?g2" "?g2 < Window_size ?w" using mg(4) tot by simp_all
      obtain wa med1 wb med2 where f: "Window_find ?w ?g1 = Inr (wa, med1)"
        "Window_find wa ?g2 = Inr (wb, med2)" "med2 > med1"
        "med1 = ?B ! nat ?g1" "med2 = ?B ! nat ?g2" "Window_inv wb" "buf_w wb = buf_w ?w"
        using Window_find_monotone[OF winv mg(1) lt] by blast
      have wb: "words_w wb = words_w ?w"
        using Window_find_inv[OF f(1) winv] Window_find_inv[OF f(2)] by simp
      have i1: "(?L - 1) div 2 < ?L" and i2: "?L div 2 < ?L"
        using nat_median_index[OF L] by blast+
      have m1: "med1 = ?B ! ((?L - 1) div 2)" and m2: "med2 = ?B ! (?L div 2)"
        using f(4,5) ng by simp_all
      have ne: "(?L - 1) div 2 \<noteq> ?L div 2" using True unfolding ng by simp
      have "get_med avg wr = Inr (wr\<lparr>window_wr := wb\<rparr>, avg (?g med1) (?g med2))"
        using sz True f(1,2,3) bnd[OF i1] bnd[OF i2] m1 m2
        by (simp add: get_med_def Let_def tot)
      moreover have "median_of avg (map val cells) = avg (?g med1) (?g med2)"
        unfolding med m1 m2 using L ne by simp
      moreover have "WR_inv val n S (wr\<lparr>window_wr := wb\<rparr>)"
        using inv f(6,7) wb by (rule WR_inv_window)
      ultimately show ?thesis using f(7) by auto
    next
      case eq: False
      obtain wa med1 where f: "Window_find ?w ?g1 = Inr (wa, med1)" "Window_inv wa"
        "buf_w wa = buf_w ?w" "words_w wa = words_w ?w" "med1 = ?B ! nat ?g1"
        using Window_find_correct[OF winv mg(1)] mg(2) tot by auto
      have i1: "(?L - 1) div 2 < ?L" using nat_median_index[OF L] by blast
      have m1: "med1 = ?B ! ((?L - 1) div 2)" using f(5) ng by simp
      have e: "(?L - 1) div 2 = ?L div 2" using eq unfolding ng by simp
      have "get_med avg wr = Inr (wr\<lparr>window_wr := wa\<rparr>, Some (?g med1))"
        using sz eq f(1) bnd[OF i1] m1 by (simp add: get_med_def Let_def tot)
      moreover have "median_of avg (map val cells) = Some (?g med1)"
        unfolding med m1 using L e by simp
      moreover have "WR_inv val n S (wr\<lparr>window_wr := wa\<rparr>)"
        using inv f(2,3,4) by (rule WR_inv_window)
      ultimately show ?thesis using f(3) by auto
    qed
  qed
qed

lemma WindowRank_new_cap:
  assumes "WindowRank_new bb = Inr wr"
  shows "WR_cap wr" and "int (length (rank_wr wr)) = bb" and "1 \<le> bb"
proof -
  from assms obtain w where w: "Window_new bb = Inr w"
    and wr: "wr = \<lparr>sorted_wr = replicate (nat bb) (0, 0), rank_wr = replicate (nat bb) 0,
                    window_wr = w, bb_wr = bb, size_wr = 0\<rparr>"
    by (auto simp: WindowRank_new_def split: sum.splits)
  note ww = Window_new_words[OF w]
  show "1 \<le> bb" by (rule ww(1))
  have "length (buf_w w) = nat (words_w w)"
    using w by (auto simp: Window_new_def get_words_def split: sum.splits if_splits)
  moreover have "bb \<le> 64 * words_w w" unfolding ww(2) by linarith
  ultimately show "WR_cap wr" using ww(1,3) by (simp add: WR_cap_def wr)
  show "int (length (rank_wr wr)) = bb" using ww(1) by (simp add: wr)
qed

text \<open>Feeding the slots \<open>0 \<dots> n - 1\<close> from any object of sufficient capacity.\<close>

lemma feed_slots:
  fixes wr :: "'a WindowRank"
  assumes "length (rank_wr wr) = length (sorted_wr wr)" "0 \<le> n" "n \<le> int (length (rank_wr wr))"
  shows "\<exists>r. iterate (for_range 0 n) (\<lambda>s r. init_feed r (val s) s) (init_start wr) = Inr r \<and>
           fed val n r \<and> length (rank_wr r) = length (rank_wr wr) \<and>
           length (sorted_wr r) = length (sorted_wr wr) \<and>
           window_wr r = window_wr wr \<and> bb_wr r = bb_wr wr"
proof -
  let ?I = "\<lambda>k (r::'a WindowRank). fed val k r \<and> length (rank_wr r) = length (rank_wr wr) \<and>
           length (sorted_wr r) = length (sorted_wr wr) \<and>
           window_wr r = window_wr wr \<and> bb_wr r = bb_wr wr"
  have "\<exists>r. iterate (for_range 0 n) (\<lambda>s r. init_feed r (val s) s) (init_start wr) = Inr r \<and>
          ?I (max 0 n) r"
  proof (rule for_range_rule)
    show "?I 0 (init_start wr)"
      using init_start_fed[of val wr] by (simp add: init_start_def)
  next
    fix k and t :: "'a WindowRank"
    assume k: "0 \<le> k" "k < n" and I: "?I k t"
    have "k < int (length (rank_wr t))" using k I assms(3) by simp
    moreover have "length (rank_wr t) = length (sorted_wr t)" using I assms(1) by simp
    ultimately show "\<exists>t'. init_feed t (val k) k = Inr t' \<and> ?I (k + 1) t'"
      using init_feed_fed[of val k t] I by auto
  qed
  then show ?thesis using assms(2) by (simp add: max_def)
qed

lemma init_block_ranked:
  fixes wr :: "'a::linorder WindowRank"
  assumes "WR_cap wr" "length vs \<le> length (rank_wr wr)"
  shows "\<exists>r. init_block wr vs = Inr r \<and> WR_cap r \<and>
           ranked (\<lambda>s. vs ! nat s) (int (length vs)) r \<and>
           length (rank_wr r) = length (rank_wr wr)"
proof -
  let ?val = "\<lambda>s. vs ! nat s"
  have l: "length (rank_wr wr) = length (sorted_wr wr)" using assms(1) by (simp add: WR_cap_def)
  obtain r where r: "iterate (for_range 0 (int (length vs))) (\<lambda>s r. init_feed r (?val s) s)
        (init_start wr) = Inr r" "fed ?val (int (length vs)) r"
    "length (rank_wr r) = length (rank_wr wr)" "length (sorted_wr r) = length (sorted_wr wr)"
    "window_wr r = window_wr wr"
    using feed_slots[OF l, of "int (length vs)" ?val] assms(2) by auto
  obtain r' where r': "init_finish r = Inr r'" "ranked ?val (int (length vs)) r'"
    "length (rank_wr r') = length (rank_wr r)" "length (sorted_wr r') = length (sorted_wr r)"
    "window_wr r' = window_wr r"
    using init_finish_ranked[OF r(2)] r(3,4) l by auto
  have "WR_cap r'" using assms(1) r(3,4,5) r'(3,4,5) by (simp add: WR_cap_def)
  moreover have "init_block wr vs = Inr r'" using r(1) r'(1) by (simp add: init_block_def)
  ultimately show ?thesis using r'(2,3) r(3) by simp
qed

lemma WR_inv_cap: "WR_inv val n S wr \<Longrightarrow> WR_cap wr"
  by (simp add: WR_inv_def)

lemma WindowRank_state_inv:
  "WindowRank_state vs S wr \<Longrightarrow> WR_inv (\<lambda>s. vs ! nat s) (int (length vs)) S wr"
proof (induction rule: WindowRank_state.induct)
  case (new bb wr0 vs wr)
  have "WR_cap wr0" using new(1) by (rule WindowRank_new_cap)
  then show ?case
    using init_block_ranked[of wr0 vs] new(2,3) by (auto intro: WR_inv_clear)
next
  case (again vs0 S0 wr0 vs wr)
  have "WR_cap wr0" using again.IH by (rule WR_inv_cap)
  then show ?case
    using init_block_ranked[of wr0 vs] again(2,3) by (auto intro: WR_inv_clear)
next
  case (clear vs S wr)
  then show ?case by (intro WR_inv_clear) (simp_all add: WR_inv_def)
next
  case (insert vs S wr s wr')
  then show ?case
    using WR_update[OF insert.IH insert(2,3), of 1] by auto
next
  case (remove vs S wr s wr')
  have "S \<subseteq> {0..<int (length vs)}" using remove.IH by (simp add: WR_inv_def)
  then have "0 \<le> s" "s < int (length vs)" using remove(2) by auto
  then show ?case
    using WR_update[OF remove.IH, of s "-1"] remove(2,3) by auto
next
  case (med vs S wr avg wr' v)
  have "finite S" using med.IH finite_subset[of S "{0..<int (length vs)}"]
    by (simp add: WR_inv_def)
  then have "distinct (sorted_list_of_set S)" "set (sorted_list_of_set S) = S" by simp_all
  from get_med_median[OF med.IH this, of avg] med(2) show ?case by auto
qed

lemma get_med_structure:
  fixes wr :: "'a::linorder WindowRank"
  assumes inv: "WR_inv val n S wr" and nz: "Window_size (window_wr wr) \<noteq> 0"
  shows "\<exists>wa med1.
           Window_find (window_wr wr) ((Window_size (window_wr wr) - 1) sdiv 2) = Inr (wa, med1) \<and>
           0 \<le> med1 \<and> med1 < size_wr wr \<and>
           (odd (Window_size (window_wr wr)) \<longrightarrow>
              get_med avg wr = Inr (wr\<lparr>window_wr := wa\<rparr>, Some (fst (sorted_wr wr ! nat med1)))) \<and>
           (even (Window_size (window_wr wr)) \<longrightarrow>
              (\<exists>wb med2.
                 Window_find wa ((Window_size (window_wr wr) - 0) sdiv 2) = Inr (wb, med2) \<and>
                 med1 < med2 \<and> med2 < size_wr wr \<and>
                 get_med avg wr = Inr (wr\<lparr>window_wr := wb\<rparr>,
                   avg (fst (sorted_wr wr ! nat med1)) (fst (sorted_wr wr ! nat med2)))))"
proof -
  let ?w = "window_wr wr"
  let ?t = "Window_size ?w"
  let ?B = "Window_bits ?w"
  let ?g1 = "(?t - 1) sdiv 2" and ?g2 = "(?t - 0) sdiv 2"
  have fin: "finite S" using inv finite_subset[of S "{0..<n}"] by (simp add: WR_inv_def)
  then have cells: "distinct (sorted_list_of_set S)" "set (sorted_list_of_set S) = S" by simp_all
  note wv = WR_window_values[OF inv cells]
  have winv: "Window_inv ?w" and rk: "ranked val n wr"
    using inv by (simp_all add: WR_inv_def)
  have szl: "size_wr wr \<le> int (length (sorted_wr wr))" using rk by (simp add: ranked_def)
  have t0: "0 < ?t" using nz Window_inv_size_nonneg[OF winv] by linarith
  note mg = median_goals[OF t0]
  have bnd: "0 \<le> ?B ! nat g \<and> ?B ! nat g < size_wr wr" if "0 \<le> g" "g < ?t" for g
  proof -
    have "nat g < length ?B" using that wv(3) by linarith
    then show ?thesis using wv(2) nth_mem by blast
  qed
  show ?thesis
  proof (cases "?g2 \<noteq> ?g1")
    case True
    then have ev: "even ?t" using mg(3) by simp
    have lt: "?g1 < ?g2" "?g2 < ?t" using mg(4) True by simp_all
    obtain wa med1 wb med2 where f: "Window_find ?w ?g1 = Inr (wa, med1)"
      "Window_find wa ?g2 = Inr (wb, med2)" "med2 > med1"
      "med1 = ?B ! nat ?g1" "med2 = ?B ! nat ?g2"
      using Window_find_monotone[OF winv mg(1) lt] by blast
    have b1: "0 \<le> med1 \<and> med1 < size_wr wr" unfolding f(4) using bnd[OF mg(1,2)] .
    have b2: "0 \<le> med2 \<and> med2 < size_wr wr"
      unfolding f(5) using bnd[of ?g2] lt mg(1) by simp
    have "get_med avg wr = Inr (wr\<lparr>window_wr := wb\<rparr>,
        avg (fst (sorted_wr wr ! nat med1)) (fst (sorted_wr wr ! nat med2)))"
      using nz True f(1,2,3) b1 b2 szl by (simp add: get_med_def Let_def)
    then show ?thesis using f(1,2,3) b1 b2 ev by auto
  next
    case False
    then have od: "odd ?t" using mg(3) by simp
    obtain wa med1 where f: "Window_find ?w ?g1 = Inr (wa, med1)" "med1 = ?B ! nat ?g1"
      using Window_find_correct[OF winv mg(1,2)] by blast
    have b1: "0 \<le> med1 \<and> med1 < size_wr wr" unfolding f(2) using bnd[OF mg(1,2)] .
    have "get_med avg wr = Inr (wr\<lparr>window_wr := wa\<rparr>, Some (fst (sorted_wr wr ! nat med1)))"
      using nz False f(1) b1 szl by (simp add: get_med_def Let_def)
    then show ?thesis using f(1) b1 od by auto
  qed
qed

text \<open>
  Claim C5. In every state of a \<^verbatim>\<open>WindowRank\<close> after an initialisation for a block and
  updates without fault, with \<open>S\<close> the slots inserted: the window counts the slots of
  \<open>S\<close> whose sample is not NaN; \<^verbatim>\<open>get_med\<close> returns the median of the samples of \<open>S\<close>,
  NaN samples excluded. If the window is empty the result is NaN. Otherwise, with \<open>n\<close>
  the size of the window, it is \<^verbatim>\<open>sorted[find((n - 1) / 2)].first\<close> for odd \<open>n\<close> and the
  mean of that and \<^verbatim>\<open>sorted[find(n / 2)].first\<close> for even \<open>n\<close>.
\<close>

theorem get_med_is_median:
  assumes "WindowRank_state vs S wr"
  shows "Window_size (window_wr wr) = int (card {s \<in> S. vs ! nat s \<noteq> None}) \<and>
         (\<exists>wr'. get_med avg wr
                  = Inr (wr', median_of avg (map (\<lambda>s. vs ! nat s) (sorted_list_of_set S)))) \<and>
         (Window_size (window_wr wr) = 0 \<longrightarrow> get_med avg wr = Inr (wr, None)) \<and>
         (Window_size (window_wr wr) \<noteq> 0 \<longrightarrow>
            (\<exists>wa med1.
               Window_find (window_wr wr) ((Window_size (window_wr wr) - 1) sdiv 2)
                 = Inr (wa, med1) \<and>
               0 \<le> med1 \<and> med1 < size_wr wr \<and>
               (odd (Window_size (window_wr wr)) \<longrightarrow>
                  get_med avg wr
                    = Inr (wr\<lparr>window_wr := wa\<rparr>, Some (fst (sorted_wr wr ! nat med1)))) \<and>
               (even (Window_size (window_wr wr)) \<longrightarrow>
                  (\<exists>wb med2.
                     Window_find wa ((Window_size (window_wr wr) - 0) sdiv 2) = Inr (wb, med2) \<and>
                     med1 < med2 \<and> med2 < size_wr wr \<and>
                     get_med avg wr = Inr (wr\<lparr>window_wr := wb\<rparr>,
                       avg (fst (sorted_wr wr ! nat med1)) (fst (sorted_wr wr ! nat med2)))))))"
proof -
  let ?val = "\<lambda>s. vs ! nat s"
  have inv: "WR_inv ?val (int (length vs)) S wr"
    using assms by (rule WindowRank_state_inv)
  have fin: "finite S" using inv finite_subset[of S "{0..<int (length vs)}"]
    by (simp add: WR_inv_def)
  then have cells: "distinct (sorted_list_of_set S)" "set (sorted_list_of_set S) = S" by simp_all
  have 1: "Window_size (window_wr wr) = int (card {s \<in> S. vs ! nat s \<noteq> None})"
    using WR_window_values(4)[OF inv cells] by simp
  have 2: "\<exists>wr'. get_med avg wr = Inr (wr', median_of avg (map ?val (sorted_list_of_set S)))"
    using get_med_median[OF inv cells, of avg] by blast
  have 3: "Window_size (window_wr wr) = 0 \<longrightarrow> get_med avg wr = Inr (wr, None)"
    by (simp add: get_med_def)
  show ?thesis
    using 1 2 3 get_med_structure[OF inv, of avg] by blast
qed

lemma example_wr_state: "WindowRank_state example_block {0, 1, 2} (example_wr 3 2)"
proof -
  let ?n = "\<lparr>sorted_wr = [(0, 0), (0, 0), (0, 0), (0, 0)], rank_wr = [0, 0, 0, 0],
        window_wr = \<lparr>words_w = 1, buf_w = [0], half0_w = 0, half1_w = 0, p_w = 0\<rparr>,
        bb_wr = 4, size_wr = 0\<rparr> :: rat WindowRank"
  have n: "WindowRank_new 4 = Inr ?n" by code_simp
  have l: "length example_block \<le> length (rank_wr ?n)" by (simp add: example_block_def)
  have i: "init_block ?n example_block = Inr (example_wr 0 0)" by code_simp
  have c: "WindowRank_clear (example_wr 0 0) = example_wr 0 0" by code_simp
  have s0: "WindowRank_state example_block {} (example_wr 0 0)"
    using WindowRank_state.new[OF n l i] unfolding c .
  have u0: "WindowRank_update (example_wr 0 0) 1 0 = Inr (example_wr 2 1)" by code_simp
  have u1: "WindowRank_update (example_wr 2 1) 1 1 = Inr (example_wr 2 1)" by code_simp
  have u2: "WindowRank_update (example_wr 2 1) 1 2 = Inr (example_wr 3 2)" by code_simp
  have s1: "WindowRank_state example_block {0} (example_wr 2 1)"
    using WindowRank_state.insert[OF s0 _ _ _ u0] by (simp add: example_block_def)
  have s2: "WindowRank_state example_block {1, 0} (example_wr 2 1)"
    using WindowRank_state.insert[OF s1 _ _ _ u1] by (simp add: example_block_def)
  have s3: "WindowRank_state example_block {2, 1, 0} (example_wr 3 2)"
    using WindowRank_state.insert[OF s2 _ _ _ u2] by (simp add: example_block_def)
  moreover have "{2, 1, 0} = {0, 1, 2::int}" by auto
  ultimately show ?thesis by simp
qed

theorem get_med_is_median_witness:
  "WindowRank_state example_block {0, 1, 2} (example_wr 3 2) \<and>
   Window_size (window_wr (example_wr 3 2)) = 2 \<and>
   (\<exists>wr'. get_med avg_rat (example_wr 3 2) = Inr (wr', Some (7 / 2))) \<and>
   median_of avg_rat [Some 5, None, Some 2] = Some (7 / 2)"
proof -
  have s: "WindowRank_state example_block {0, 1, 2} (example_wr 3 2)"
    by (rule example_wr_state)
  have l: "sorted_list_of_set {0, 1, 2::int} = [0, 1, 2]"
    by code_simp
  have m: "map (\<lambda>s. example_block ! nat s) [0, 1, 2] = [Some 5, None, Some 2]"
    by (simp add: example_block_def)
  have v: "median_of avg_rat [Some 5, None, Some 2] = Some (7 / 2)"
    by code_simp
  have z: "Window_size (window_wr (example_wr 3 2)) = 2"
    by (simp add: example_wr_def Window_size_def)
  from get_med_is_median[OF s, of avg_rat] show ?thesis
    unfolding l m v using s z by blast
qed

end
